theory Spec2Isabelle
  imports Complex_Main "HOL-Library.Multiset"
begin

section \<open>The map-synchronisation effect of \<open>src/frontend/index.js\<close>\<close>

text \<open>
  The component \<open>MapInterface\<close> owns two React refs, \<open>markersRef\<close> and \<open>circlesRef\<close>,
  and re-runs one effect (lines 158-561, a \<^emph>\<open>sync pass\<close>) whenever its inputs change.
  The pass clears the overlays held by the refs, declares the locals \<open>bounds\<close>,
  \<open>markerCount\<close>, \<open>totalRecords\<close> and the closure \<open>checkAndFitBounds\<close>, and walks the two
  record collections. A record with an address hands a callback to the geocoder; the
  geocoder answers later, in any order. The model below makes this explicit: the state
  of the page is a \<open>world\<close>, the locals of every pass live in a store indexed by a pass
  number (the closure environment), and the outstanding geocode requests are a list of
  callbacks awaiting their answer.

  What is taken from the collaborators, as their interfaces have it:
  \<^item> the geocoder never runs a callback inside the call of \<open>geocode\<close>, and runs it at
    most once;
  \<^item> the constructors and methods of the map library (\<open>Marker\<close>, \<open>Circle\<close>, \<open>setMap\<close>,
    \<open>extend\<close>, \<open>isEmpty\<close>, \<open>fitBounds\<close>, \<open>addListener\<close>) and \<open>console.warn\<close> return
    normally; reading a cell of a record may raise;
  \<^item> a bounds region is the list of the positions it was extended with (empty exactly
    when it was never extended), a coordinate is a rational number, and the markup of a
    popup is the tuple of the values spliced into its template. The click listeners only
    show that markup and are left out.
\<close>

subsection \<open>Values read from the data source\<close>

type_synonym position = "rat \<times> rat"

datatype jsval = Null | Str string | Num rat | Arr "jsval list" | Link string

text \<open>JavaScript truthiness of a cell value (\<open>if (addressValue)\<close>, \<open>distance ? .. : ..\<close>).\<close>

fun truthy :: "jsval \<Rightarrow> bool" where
  "truthy Null = False"
| "truthy (Str s) = (s \<noteq> [])"
| "truthy (Num n) = (n \<noteq> 0)"
| "truthy (Arr xs) = True"
| "truthy (Link n) = True"

datatype exn = CellReadError | TypeError

type_synonym field = string

record airtable_record =
  name :: string
  getCellValue :: "field \<Rightarrow> exn + jsval"
  getCellValueAsString :: "field \<Rightarrow> exn + string"

record custom_properties =
  requirementAddressField :: "field option"
  listingAddressField :: "field option"
  listingUrlField :: "field option"
  listingDistanceField :: "field option"
  listingDriveTimeField :: "field option"
  listingRequirementsField :: "field option"
  listingImageUrlField :: "field option"
  listingPropertyTypeField :: "field option"

text \<open>The values the effect closes over: its dependencies and the configuration.\<close>

record effect_inputs =
  mapsLoaded :: bool
  mapContainer :: bool
  requirementsTable :: "string option"
  listingsTable :: "string option"
  requirementRecords :: "airtable_record list option"
  listingRecords :: "airtable_record list option"
  customPropertyValueByKey :: custom_properties

subsection \<open>Overlays, geocoding and the page state\<close>

datatype popup =
    RequirementPopup string jsval
  | ListingPopup "string option" string "string option" string jsval jsval "string option"

datatype shape =
    Marker position "jsval option" string popup
  | Circle position rat

text \<open>
  An overlay object: what was constructed, whether it is currently attached to the map
  (\<open>setMap(null)\<close> detaches it), and the pass whose callback constructed it. The last
  field is a provenance label: no operation reads it.
\<close>

record overlay =
  shape :: shape
  onMap :: bool
  madeBy :: nat

record response =
  results :: "position list"
  status :: string

datatype closure =
    RequirementCallback jsval string
  | ListingCallback string "string option" jsval jsval "string option" "string option" string

record request =
  req_pass :: nat
  req_closure :: closure

record pass_locals =
  markerCount :: nat
  totalRecords :: nat
  bounds :: "position list"

datatype log_line =
    GeocodingFailed jsval string
  | NoAddressForRequirement nat
  | ErrorProcessingRequirement exn
  | ErrorProcessingListing exn

record world =
  mapInstance :: bool
  overlays :: "overlay list"
  markersRef :: "nat list"
  circlesRef :: "nat list"
  passes :: "nat \<Rightarrow> pass_locals"
  nextPass :: nat
  pending :: "request list"
  fitBoundsCalls :: "(nat \<times> position list) list"
  console :: "log_line list"

definition fresh_locals :: pass_locals where
  "fresh_locals = \<lparr>markerCount = 0, totalRecords = 0, bounds = []\<rparr>"

definition initial_world :: world where
  "initial_world =
     \<lparr>mapInstance = False, overlays = [], markersRef = [], circlesRef = [],
      passes = (\<lambda>p. fresh_locals), nextPass = 0, pending = [],
      fitBoundsCalls = [], console = []\<rparr>"

subsection \<open>\<open>checkAndFitBounds\<close> (lines 192-197)\<close>

definition checkAndFitBounds :: "nat \<Rightarrow> world \<Rightarrow> world" where
  "checkAndFitBounds p w =
     (let l = (passes w p)\<lparr>markerCount := markerCount (passes w p) + 1\<rparr>;
          w' = w\<lparr>passes := (passes w)(p := l)\<rparr>
      in if markerCount l = totalRecords l \<and> bounds l \<noteq> []
         then w'\<lparr>fitBoundsCalls := fitBoundsCalls w' @ [(p, bounds l)]\<rparr>
         else w')"

definition warn :: "log_line \<Rightarrow> world \<Rightarrow> world" where
  "warn l w = w\<lparr>console := console w @ [l]\<rparr>"

definition geocode :: "request \<Rightarrow> world \<Rightarrow> world" where
  "geocode rq w = w\<lparr>pending := pending w @ [rq]\<rparr>"

subsection \<open>The geocode callbacks (lines 220-323 and 365-550)\<close>

definition new_overlay :: "nat \<Rightarrow> shape \<Rightarrow> overlay" where
  "new_overlay p s = \<lparr>shape = s, onMap = True, madeBy = p\<rparr>"

definition extend_bounds :: "nat \<Rightarrow> position \<Rightarrow> world \<Rightarrow> world" where
  "extend_bounds p pos w =
     w\<lparr>passes := (passes w)(p := (passes w p)\<lparr>bounds := bounds (passes w p) @ [pos]\<rparr>)\<rparr>"

definition push_marker :: "nat \<Rightarrow> shape \<Rightarrow> world \<Rightarrow> world" where
  "push_marker p s w =
     w\<lparr>overlays := overlays w @ [new_overlay p s],
       markersRef := markersRef w @ [length (overlays w)]\<rparr>"

definition push_circle :: "nat \<Rightarrow> shape \<Rightarrow> world \<Rightarrow> world" where
  "push_circle p s w =
     w\<lparr>overlays := overlays w @ [new_overlay p s],
       circlesRef := circlesRef w @ [length (overlays w)]\<rparr>"

definition geocode_ok :: "response \<Rightarrow> bool" where
  "geocode_ok r = (status r = ''OK'' \<and> results r \<noteq> [])"

definition callback :: "request \<Rightarrow> response \<Rightarrow> world \<Rightarrow> world" where
  "callback rq r w =
     (let p = req_pass rq in
      case req_closure rq of
        RequirementCallback address siteCode \<Rightarrow>
          (if status r = ''OK'' \<and> results r \<noteq> [] then
             (let position = hd (results r);
                  w1 = push_marker p
                         (Marker position (Some address) ''#1976d2''
                            (RequirementPopup siteCode address)) w;
                  w2 = push_circle p (Circle position 24140.16) w1;
                  w3 = extend_bounds p position w2
              in checkAndFitBounds p w3)
           else checkAndFitBounds p (warn (GeocodingFailed address (status r)) w))
      | ListingCallback address url distance driveTime imageUrl propertyType requirementName \<Rightarrow>
          (if status r = ''OK'' \<and> results r \<noteq> [] then
             (let position = hd (results r);
                  w1 = push_marker p
                         (Marker position None ''#f74022''
                            (ListingPopup imageUrl requirementName propertyType address
                               distance driveTime url)) w;
                  w2 = extend_bounds p position w1
              in checkAndFitBounds p w2)
           else checkAndFitBounds p (warn (GeocodingFailed (Str address) (status r)) w)))"

subsection \<open>Reading one record (the \<open>try\<close> blocks, lines 202-327 and 338-553)\<close>

text \<open>
  \<open>String.prototype.trim\<close> (line 210). A \<open>char\<close> is a byte here, so a string is read
  as UTF-8 and the white space of JavaScript is given by its encodings: TAB, LF, VT, FF,
  CR, SP, U+00A0, U+1680, U+2000 to U+200A, U+2028, U+2029, U+202F, U+205F, U+3000 and
  U+FEFF. \<open>strip\<close> takes such encodings off the front for as long as there is one;
  the end is trimmed on the reversed string.
\<close>

definition white_space :: "string list" where
  "white_space =
     [[CHR 0x09], [CHR 0x0A], [CHR 0x0B], [CHR 0x0C], [CHR 0x0D], [CHR 0x20],
      [CHR 0xC2, CHR 0xA0],
      [CHR 0xE1, CHR 0x9A, CHR 0x80],
      [CHR 0xE2, CHR 0x80, CHR 0x80], [CHR 0xE2, CHR 0x80, CHR 0x81],
      [CHR 0xE2, CHR 0x80, CHR 0x82], [CHR 0xE2, CHR 0x80, CHR 0x83],
      [CHR 0xE2, CHR 0x80, CHR 0x84], [CHR 0xE2, CHR 0x80, CHR 0x85],
      [CHR 0xE2, CHR 0x80, CHR 0x86], [CHR 0xE2, CHR 0x80, CHR 0x87],
      [CHR 0xE2, CHR 0x80, CHR 0x88], [CHR 0xE2, CHR 0x80, CHR 0x89],
      [CHR 0xE2, CHR 0x80, CHR 0x8A],
      [CHR 0xE2, CHR 0x80, CHR 0xA8], [CHR 0xE2, CHR 0x80, CHR 0xA9],
      [CHR 0xE2, CHR 0x80, CHR 0xAF],
      [CHR 0xE2, CHR 0x81, CHR 0x9F],
      [CHR 0xE3, CHR 0x80, CHR 0x80],
      [CHR 0xEF, CHR 0xBB, CHR 0xBF]]"

definition starts_with :: "string \<Rightarrow> string \<Rightarrow> bool" where
  "starts_with s ws = (ws \<noteq> [] \<and> take (length ws) s = ws)"

function strip :: "string list \<Rightarrow> string \<Rightarrow> string" where
  "strip wss s =
     (case find (starts_with s) wss of
        None \<Rightarrow> s
      | Some ws \<Rightarrow> strip wss (drop (length ws) s))"
  by pat_completeness auto
termination
proof (relation "measure (\<lambda>(wss, s). length s)")
  show "wf (measure (\<lambda>(wss, s). length s))"
    by simp
next
  fix wss :: "string list" and s ws :: string
  assume "find (starts_with s) wss = Some ws"
  then have "starts_with s ws"
    by (auto simp: find_Some_iff)
  then have "ws \<noteq> []" and "length (take (length ws) s) = length ws"
    by (simp_all add: starts_with_def)
  then have "0 < length ws" and "length ws \<le> length s"
    by auto
  then have "length s - length ws < length s"
    by arith
  then show "((wss, drop (length ws) s), (wss, s)) \<in> measure (\<lambda>(wss, s). length s)"
    by simp
qed

declare strip.simps [simp del]

definition trim :: "string \<Rightarrow> string" where
  "trim s = rev (strip (map rev white_space) (rev (strip white_space s)))"

text \<open>Lines 207-214: the address text of a requirement.\<close>

definition requirement_address :: "jsval \<Rightarrow> jsval" where
  "requirement_address addressValue =
     (if truthy addressValue then
        (case addressValue of
           Str s \<Rightarrow> Str (trim s)
         | Arr (x # xs) \<Rightarrow> x
         | _ \<Rightarrow> Null)
      else Null)"

definition read_value :: "field option \<Rightarrow> airtable_record \<Rightarrow> exn + jsval" where
  "read_value f record =
     (case f of None \<Rightarrow> Inr Null | Some i \<Rightarrow> getCellValue record i)"

definition read_string :: "field option \<Rightarrow> airtable_record \<Rightarrow> exn + string option" where
  "read_string f record =
     (case f of
        None \<Rightarrow> Inr None
      | Some i \<Rightarrow> (case getCellValueAsString record i of Inl e \<Rightarrow> Inl e | Inr s \<Rightarrow> Inr (Some s)))"

definition try_bind :: "exn + 'a \<Rightarrow> ('a \<Rightarrow> exn + 'b) \<Rightarrow> exn + 'b" where
  "try_bind m k = (case m of Inl e \<Rightarrow> Inl e | Inr v \<Rightarrow> k v)"

definition requirement_try ::
  "custom_properties \<Rightarrow> nat \<Rightarrow> nat \<Rightarrow> airtable_record \<Rightarrow> world \<Rightarrow> exn + world" where
  "requirement_try cp p index record w =
     try_bind (read_value (requirementAddressField cp) record) (\<lambda>addressValue.
       (let address = requirement_address addressValue;
            siteCode = name record
        in if truthy address
           then Inr (geocode \<lparr>req_pass = p, req_closure = RequirementCallback address siteCode\<rparr> w)
           else Inr (checkAndFitBounds p (warn (NoAddressForRequirement (index + 1)) w))))"

definition requirement_each ::
  "custom_properties \<Rightarrow> nat \<Rightarrow> nat \<Rightarrow> airtable_record \<Rightarrow> world \<Rightarrow> world" where
  "requirement_each cp p index record w =
     (case requirement_try cp p index record w of
        Inr w' \<Rightarrow> w'
      | Inl err \<Rightarrow> checkAndFitBounds p (warn (ErrorProcessingRequirement err) w))"

text \<open>
  Lines 356-362: the name of the first linked requirement. \<open>requirementsValue.length\<close> is
  defined for arrays and strings only; reading \<open>.name\<close> off \<open>null\<close> raises a TypeError.
\<close>

definition linked_requirement_name :: "jsval \<Rightarrow> exn + string" where
  "linked_requirement_name requirementsValue =
     (if truthy requirementsValue then
        (case requirementsValue of
           Arr (Null # xs) \<Rightarrow> Inl TypeError
         | Arr (Link n # xs) \<Rightarrow> Inr n
         | _ \<Rightarrow> Inr '''')
      else Inr '''')"

definition listing_try ::
  "custom_properties \<Rightarrow> nat \<Rightarrow> airtable_record \<Rightarrow> world \<Rightarrow> exn + world" where
  "listing_try cp p record w =
     try_bind (read_string (listingAddressField cp) record) (\<lambda>address.
     try_bind (read_string (listingUrlField cp) record) (\<lambda>url.
     try_bind (read_value (listingDistanceField cp) record) (\<lambda>distance.
     try_bind (read_value (listingDriveTimeField cp) record) (\<lambda>driveTime.
     try_bind (read_string (listingImageUrlField cp) record) (\<lambda>imageUrl.
     try_bind (read_string (listingPropertyTypeField cp) record) (\<lambda>propertyType.
     try_bind (case listingRequirementsField cp of
                 None \<Rightarrow> Inr ''''
               | Some i \<Rightarrow> try_bind (getCellValue record i) linked_requirement_name)
       (\<lambda>requirementName.
          (case address of
             Some (c # cs) \<Rightarrow>
               Inr (geocode \<lparr>req_pass = p,
                      req_closure = ListingCallback (c # cs) url distance driveTime imageUrl
                                      propertyType requirementName\<rparr> w)
           | _ \<Rightarrow> Inr (checkAndFitBounds p w)))))))))"

definition listing_each ::
  "custom_properties \<Rightarrow> nat \<Rightarrow> airtable_record \<Rightarrow> world \<Rightarrow> world" where
  "listing_each cp p record w =
     (case listing_try cp p record w of
        Inr w' \<Rightarrow> w'
      | Inl err \<Rightarrow> checkAndFitBounds p (warn (ErrorProcessingListing err) w))"

fun requirements_forEach ::
  "custom_properties \<Rightarrow> nat \<Rightarrow> nat \<Rightarrow> airtable_record list \<Rightarrow> world \<Rightarrow> world" where
  "requirements_forEach cp p index [] w = w"
| "requirements_forEach cp p index (record # rest) w =
     requirements_forEach cp p (Suc index) rest (requirement_each cp p index record w)"

fun listings_forEach ::
  "custom_properties \<Rightarrow> nat \<Rightarrow> airtable_record list \<Rightarrow> world \<Rightarrow> world" where
  "listings_forEach cp p [] w = w"
| "listings_forEach cp p (record # rest) w =
     listings_forEach cp p rest (listing_each cp p record w)"

subsection \<open>The effect (lines 158-561)\<close>

definition setMap_null :: "nat \<Rightarrow> overlay list \<Rightarrow> overlay list" where
  "setMap_null h os = (if h < length os then os[h := (os ! h)\<lparr>onMap := False\<rparr>] else os)"

text \<open>Lines 180-184.\<close>

definition clear_overlays :: "world \<Rightarrow> world" where
  "clear_overlays w =
     w\<lparr>overlays := fold setMap_null (circlesRef w) (fold setMap_null (markersRef w) (overlays w)),
       markersRef := [], circlesRef := []\<rparr>"

definition ready :: "effect_inputs \<Rightarrow> bool" where
  "ready e = (mapsLoaded e \<and> mapContainer e \<and> requirementsTable e \<noteq> None \<and> listingsTable e \<noteq> None)"

definition record_count :: "airtable_record list option \<Rightarrow> nat" where
  "record_count rs = (case rs of None \<Rightarrow> 0 | Some xs \<Rightarrow> length xs)"

text \<open>Lines 186-189: the locals of a new pass.\<close>

definition begin_pass :: "effect_inputs \<Rightarrow> world \<Rightarrow> world" where
  "begin_pass e w =
     w\<lparr>passes := (passes w)(nextPass w :=
          \<lparr>markerCount = 0,
           totalRecords = record_count (requirementRecords e) + record_count (listingRecords e),
           bounds = []\<rparr>),
       nextPass := Suc (nextPass w)\<rparr>"

text \<open>Lines 200-333 and 336-559: the two guarded loops.\<close>

definition requirements_block :: "effect_inputs \<Rightarrow> nat \<Rightarrow> world \<Rightarrow> world" where
  "requirements_block e p w =
     (case requirementRecords e of
        Some rs \<Rightarrow> requirements_forEach (customPropertyValueByKey e) p 0 rs w
      | None \<Rightarrow> w)"

definition listings_block :: "effect_inputs \<Rightarrow> nat \<Rightarrow> world \<Rightarrow> world" where
  "listings_block e p w =
     (case listingRecords e of
        Some ls \<Rightarrow> listings_forEach (customPropertyValueByKey e) p ls w
      | None \<Rightarrow> w)"

definition effect :: "effect_inputs \<Rightarrow> world \<Rightarrow> world" where
  "effect e w =
     (if \<not> mapsLoaded e \<or> \<not> mapContainer e \<or> requirementsTable e = None \<or> listingsTable e = None
      then w
      else
        (let p = nextPass w;
             w1 = clear_overlays (w\<lparr>mapInstance := True\<rparr>);
             w2 = begin_pass e w1;
             w3 = requirements_block e p w2
         in listings_block e p w3))"

subsection \<open>Runs of the page\<close>

text \<open>
  An event is either a run of the effect or the geocoder answering the \<open>i\<close>-th
  outstanding request. The geocoder is free in the order and in the answers. An answer
  takes its request off the list, so no request is answered twice; an answer to a
  request that is not there is not an event of the page, and the step leaves the world
  as it is.
\<close>

datatype event = Effect effect_inputs | Geocoded nat response

fun step :: "event \<Rightarrow> world \<Rightarrow> world" where
  "step (Effect e) w = effect e w"
| "step (Geocoded i r) w =
     (if i < length (pending w)
      then callback (pending w ! i) r (w\<lparr>pending := take i (pending w) @ drop (Suc i) (pending w)\<rparr>)
      else w)"

definition exec :: "event list \<Rightarrow> world \<Rightarrow> world" where
  "exec evs w = fold step evs w"

subsection \<open>Observations of a world\<close>

text \<open>
  The calls of \<open>fitBounds\<close> made by pass \<open>p\<close>, the number of its geocode requests
  still unanswered, the shapes its callbacks constructed, and the shapes attached to the
  map.
\<close>

definition fits :: "nat \<Rightarrow> world \<Rightarrow> (nat \<times> position list) list" where
  "fits p w = filter (\<lambda>c. fst c = p) (fitBoundsCalls w)"

definition outstanding :: "nat \<Rightarrow> world \<Rightarrow> nat" where
  "outstanding p w = length (filter (\<lambda>rq. req_pass rq = p) (pending w))"

definition made :: "nat \<Rightarrow> world \<Rightarrow> shape list" where
  "made p w = map shape (filter (\<lambda>ov. madeBy ov = p) (overlays w))"

definition on_map :: "world \<Rightarrow> shape list" where
  "on_map w = map shape (filter onMap (overlays w))"

fun is_marker :: "shape \<Rightarrow> bool" where
  "is_marker (Marker pos t c pp) = True"
| "is_marker (Circle pos r) = False"

fun is_circle :: "shape \<Rightarrow> bool" where
  "is_circle (Marker pos t c pp) = False"
| "is_circle (Circle pos r) = True"

definition label :: "overlay \<Rightarrow> shape \<times> nat" where
  "label ov = (shape ov, madeBy ov)"

text \<open>
  The successful geocode callbacks of pass \<open>p\<close> along a run: an answer to a request of
  \<open>p\<close> that takes the \<open>status === 'OK' && results[0]\<close> branch.
\<close>

fun succeeded :: "nat \<Rightarrow> event \<Rightarrow> world \<Rightarrow> bool" where
  "succeeded p (Effect e) w = False"
| "succeeded p (Geocoded i r) w =
     (i < length (pending w) \<and> req_pass (pending w ! i) = p \<and> geocode_ok r)"

fun successes :: "nat \<Rightarrow> event list \<Rightarrow> world \<Rightarrow> nat" where
  "successes p [] w = 0"
| "successes p (ev # evs) w =
     (if succeeded p ev w then 1 else 0) + successes p evs (step ev w)"

fun is_requirement :: "closure \<Rightarrow> bool" where
  "is_requirement (RequirementCallback address siteCode) = True"
| "is_requirement (ListingCallback address url distance driveTime imageUrl propertyType
     requirementName) = False"

fun succeeded_requirement :: "nat \<Rightarrow> event \<Rightarrow> world \<Rightarrow> bool" where
  "succeeded_requirement p (Effect e) w = False"
| "succeeded_requirement p (Geocoded i r) w =
     (i < length (pending w) \<and> req_pass (pending w ! i) = p \<and> geocode_ok r
      \<and> is_requirement (req_closure (pending w ! i)))"

fun requirement_successes :: "nat \<Rightarrow> event list \<Rightarrow> world \<Rightarrow> nat" where
  "requirement_successes p [] w = 0"
| "requirement_successes p (ev # evs) w =
     (if succeeded_requirement p ev w then 1 else 0) + requirement_successes p evs (step ev w)"

text \<open>The shapes a callback constructs, and the positions it adds to the bounds.\<close>

definition constructed :: "closure \<Rightarrow> response \<Rightarrow> shape list" where
  "constructed c r =
     (if geocode_ok r then
        (case c of
           RequirementCallback address siteCode \<Rightarrow>
             [Marker (hd (results r)) (Some address) ''#1976d2'' (RequirementPopup siteCode address),
              Circle (hd (results r)) 24140.16]
         | ListingCallback address url distance driveTime imageUrl propertyType requirementName \<Rightarrow>
             [Marker (hd (results r)) None ''#f74022''
                (ListingPopup imageUrl requirementName propertyType address distance driveTime url)])
      else [])"

definition answered :: "response \<Rightarrow> position list" where
  "answered r = (if geocode_ok r then [hd (results r)] else [])"

definition take_request :: "nat \<Rightarrow> world \<Rightarrow> world" where
  "take_request i w = w\<lparr>pending := take i (pending w) @ drop (Suc i) (pending w)\<rparr>"

text \<open>
  Records with a non-empty address field: the cell of the configured address field reads
  as a truthy value (requirements) or as a non-empty string (listings).
\<close>

definition requirement_has_address :: "custom_properties \<Rightarrow> airtable_record \<Rightarrow> bool" where
  "requirement_has_address cp record =
     (case requirementAddressField cp of
        None \<Rightarrow> False
      | Some f \<Rightarrow> (case getCellValue record f of Inl e \<Rightarrow> False | Inr v \<Rightarrow> truthy v))"

definition listing_has_address :: "custom_properties \<Rightarrow> airtable_record \<Rightarrow> bool" where
  "listing_has_address cp record =
     (case listingAddressField cp of
        None \<Rightarrow> False
      | Some f \<Rightarrow> (case getCellValueAsString record f of Inl e \<Rightarrow> False | Inr s \<Rightarrow> s \<noteq> []))"

definition records_of :: "airtable_record list option \<Rightarrow> airtable_record list" where
  "records_of rs = (case rs of None \<Rightarrow> [] | Some xs \<Rightarrow> xs)"

definition addressed :: "effect_inputs \<Rightarrow> nat" where
  "addressed e =
     length (filter (requirement_has_address (customPropertyValueByKey e))
               (records_of (requirementRecords e)))
     + length (filter (listing_has_address (customPropertyValueByKey e))
               (records_of (listingRecords e)))"

subsection \<open>Invariants\<close>

text \<open>
  A pass \<open>p\<close> with \<open>k\<close> records of its loops still to visit: every record is either
  counted, awaiting its answer, or still to be visited; \<open>fitBounds\<close> has been called for
  \<open>p\<close> once if the counter is full and the bounds are non-empty, and not at all
  otherwise; while the loops run, the bounds are empty.
\<close>

definition pass_ok :: "nat \<Rightarrow> nat \<Rightarrow> world \<Rightarrow> bool" where
  "pass_ok k p w =
     (markerCount (passes w p) + outstanding p w + k = totalRecords (passes w p)
      \<and> length (fits p w) =
          (if markerCount (passes w p) = totalRecords (passes w p) \<and> bounds (passes w p) \<noteq> []
           then 1 else 0)
      \<and> (0 < k \<longrightarrow> bounds (passes w p) = []))"

definition unstarted :: "nat \<Rightarrow> world \<Rightarrow> bool" where
  "unstarted p w = (passes w p = fresh_locals \<and> fits p w = [] \<and> made p w = [])"

definition syncing :: "nat \<Rightarrow> nat \<Rightarrow> world \<Rightarrow> bool" where
  "syncing k p w =
     (p < nextPass w
      \<and> (\<forall>rq \<in> set (pending w). req_pass rq < nextPass w)
      \<and> pass_ok k p w
      \<and> (\<forall>q < nextPass w. q \<noteq> p \<longrightarrow> pass_ok 0 q w)
      \<and> (\<forall>q \<ge> nextPass w. unstarted q w))"

definition inv :: "world \<Rightarrow> bool" where
  "inv w =
     ((\<forall>rq \<in> set (pending w). req_pass rq < nextPass w)
      \<and> (\<forall>q < nextPass w. pass_ok 0 q w)
      \<and> (\<forall>q \<ge> nextPass w. unstarted q w))"

text \<open>Every overlay attached to the map is held by one of the two refs.\<close>

definition held :: "world \<Rightarrow> bool" where
  "held w = (\<forall>i < length (overlays w).
               onMap (overlays w ! i) \<longrightarrow> i \<in> set (markersRef w) \<union> set (circlesRef w))"

text \<open>
  One record of a loop does one of two things: it hands a request of the pass to the
  geocoder, or it counts itself (after logging, or not). Whatever the loops do, they
  leave the overlays, the refs and the other passes alone.
\<close>

definition sync_step :: "nat \<Rightarrow> world \<Rightarrow> world \<Rightarrow> bool" where
  "sync_step p w w' =
     ((\<exists>rq. req_pass rq = p \<and> w' = geocode rq w)
      \<or> (\<exists>c. w' = checkAndFitBounds p (w\<lparr>console := c\<rparr>)))"

definition sync_frame :: "nat \<Rightarrow> world \<Rightarrow> world \<Rightarrow> bool" where
  "sync_frame p w w' =
     (overlays w' = overlays w \<and> markersRef w' = markersRef w \<and> circlesRef w' = circlesRef w
      \<and> nextPass w' = nextPass w \<and> mapInstance w' = mapInstance w
      \<and> (\<forall>q. q \<noteq> p \<longrightarrow> passes w' q = passes w q)
      \<and> totalRecords (passes w' p) = totalRecords (passes w p)
      \<and> bounds (passes w' p) = bounds (passes w p)
      \<and> (\<forall>q. q \<noteq> p \<longrightarrow> fits q w' = fits q w)
      \<and> (\<exists>new. pending w' = pending w @ new \<and> (\<forall>rq \<in> set new. req_pass rq = p)))"

definition closure_address :: "closure \<Rightarrow> jsval" where
  "closure_address c =
     (case c of
        RequirementCallback address siteCode \<Rightarrow> address
      | ListingCallback address url distance driveTime imageUrl propertyType requirementName \<Rightarrow>
          Str address)"


text \<open>
  Runs made of geocoder answers only, and the shapes such a run attaches to the map, as a
  function of the callbacks that were waiting.
\<close>

fun is_answer :: "event \<Rightarrow> bool" where
  "is_answer (Effect e) = False"
| "is_answer (Geocoded i r) = True"

fun answer_shapes :: "event list \<Rightarrow> closure list \<Rightarrow> shape list" where
  "answer_shapes [] cs = []"
| "answer_shapes (Effect e # evs) cs = answer_shapes evs cs"
| "answer_shapes (Geocoded i r # evs) cs =
     (if i < length cs
      then constructed (cs ! i) r @ answer_shapes evs (take i cs @ drop (Suc i) cs)
      else answer_shapes evs cs)"

text \<open>
  A schedule answers the requests of a pass in some order: \<open>rs\<close> holds the answer of
  every request, in the order the pass issued them, and each number of the schedule
  picks the request to answer next among those still outstanding. \<open>unanswered\<close> is what
  a schedule leaves of a list aligned with the requests.
\<close>

fun schedule :: "response list \<Rightarrow> nat list \<Rightarrow> event list" where
  "schedule rs [] = []"
| "schedule rs (i # order) =
     (if i < length rs
      then Geocoded i (rs ! i) # schedule (take i rs @ drop (Suc i) rs) order
      else schedule rs order)"

fun unanswered :: "nat list \<Rightarrow> 'a list \<Rightarrow> 'a list" where
  "unanswered [] xs = xs"
| "unanswered (i # order) xs =
     (if i < length xs
      then unanswered order (take i xs @ drop (Suc i) xs)
      else unanswered order xs)"

definition all_shapes :: "closure list \<Rightarrow> response list \<Rightarrow> shape multiset" where
  "all_shapes cs rs = sum_list (map (\<lambda>(c, r). mset (constructed c r)) (zip cs rs))"

subsection \<open>Example inputs\<close>

definition text_record :: "string \<Rightarrow> string \<Rightarrow> airtable_record" where
  "text_record n a =
     \<lparr>name = n,
      getCellValue = (\<lambda>f. Inr (if a = [] then Null else Str a)),
      getCellValueAsString = (\<lambda>f. Inr a)\<rparr>"

definition broken_record :: airtable_record where
  "broken_record =
     \<lparr>name = ''gone'',
      getCellValue = (\<lambda>f. Inl CellReadError),
      getCellValueAsString = (\<lambda>f. Inl CellReadError)\<rparr>"

definition example_properties :: custom_properties where
  "example_properties =
     \<lparr>requirementAddressField = Some ''fldAddress'',
      listingAddressField = Some ''fldListingAddress'',
      listingUrlField = None, listingDistanceField = None, listingDriveTimeField = None,
      listingRequirementsField = None, listingImageUrlField = None,
      listingPropertyTypeField = None\<rparr>"

definition example_inputs :: "airtable_record list \<Rightarrow> airtable_record list \<Rightarrow> effect_inputs" where
  "example_inputs rs ls =
     \<lparr>mapsLoaded = True, mapContainer = True,
      requirementsTable = Some ''Requirements'', listingsTable = Some ''Listings'',
      requirementRecords = Some rs, listingRecords = Some ls,
      customPropertyValueByKey = example_properties\<rparr>"

definition found :: "position \<Rightarrow> response" where
  "found pos = \<lparr>results = [pos], status = ''OK''\<rparr>"

definition not_found :: response where
  "not_found = \<lparr>results = [], status = ''ZERO_RESULTS''\<rparr>"

text \<open>
  Two requirements whose addresses resolve and one listing without an address; the
  geocoder answers the second request first.
\<close>

definition example_run :: "event list" where
  "example_run =
     [Effect (example_inputs [text_record ''R1'' ''A'', text_record ''R2'' ''B'']
                [text_record ''L1'' '''']),
      Geocoded 1 (found (2, 2)),
      Geocoded 0 (found (1, 1))]"

text \<open>One requirement and one listing, both with an address, after the loops have run.\<close>

definition example_pending :: world where
  "example_pending =
     effect (example_inputs [text_record ''R1'' ''A''] [text_record ''L1'' ''X'']) initial_world"

text \<open>Two passes started one after the other, before the geocoder has answered.\<close>

definition two_passes :: "event list" where
  "two_passes =
     [Effect (example_inputs [] [text_record ''L1'' ''X'']),
      Effect (example_inputs [] [text_record ''L1'' ''X''])]"

text \<open>One requirement whose address resolves.\<close>

definition one_requirement_run :: "event list" where
  "one_requirement_run =
     [Effect (example_inputs [text_record ''R1'' ''A''] []), Geocoded 0 (found (1, 1))]"

text \<open>
  The same pass run once and answered, and run twice in a row with both answers
  arriving after the second start.
\<close>

definition one_pass_answered :: "event list" where
  "one_pass_answered =
     [Effect (example_inputs [] [text_record ''L1'' ''X'']), Geocoded 0 (found (1, 1))]"

definition two_passes_answered :: "event list" where
  "two_passes_answered = two_passes @ [Geocoded 0 (found (1, 1)), Geocoded 0 (found (1, 1))]"

definition example_answers :: "event list" where
  "example_answers = [Geocoded 1 (found (2, 2)), Geocoded 0 (found (1, 1))]"

text \<open>One listing whose address the geocoder does not find.\<close>

definition failed_run :: "event list" where
  "failed_run = [Effect (example_inputs [] [text_record ''L1'' ''X'']), Geocoded 0 not_found]"

text \<open>The answers of the two requests of \<open>example_pending\<close>, in the order of issue.\<close>

definition example_responses :: "response list" where
  "example_responses = [found (1, 1), found (2, 2)]"

section \<open>Properties of the model\<close>

subsection \<open>One record of a loop is one step\<close>

lemma sync_geocode: "req_pass rq = p \<Longrightarrow> sync_step p w (geocode rq w)"
  unfolding sync_step_def by blast

lemma sync_warn_tick: "sync_step p w (checkAndFitBounds p (warn l w))"
  unfolding sync_step_def warn_def by blast

lemma sync_tick: "sync_step p w (checkAndFitBounds p w)"
proof -
  have "checkAndFitBounds p w = checkAndFitBounds p (w\<lparr>console := console w\<rparr>)"
    by simp
  then show ?thesis
    unfolding sync_step_def by blast
qed

lemma requirement_each_sync: "sync_step p w (requirement_each cp p i r w)"
  unfolding requirement_each_def requirement_try_def try_bind_def
  by (simp add: Let_def sync_geocode sync_warn_tick split: sum.splits)

lemma listing_each_sync: "sync_step p w (listing_each cp p r w)"
  unfolding listing_each_def listing_try_def try_bind_def
  by (simp add: sync_geocode sync_warn_tick sync_tick split: sum.splits option.splits list.splits)

subsection \<open>What the basic operations change\<close>

lemma tick_fields [simp]:
  "overlays (checkAndFitBounds p w) = overlays w"
  "markersRef (checkAndFitBounds p w) = markersRef w"
  "circlesRef (checkAndFitBounds p w) = circlesRef w"
  "pending (checkAndFitBounds p w) = pending w"
  "console (checkAndFitBounds p w) = console w"
  "nextPass (checkAndFitBounds p w) = nextPass w"
  "mapInstance (checkAndFitBounds p w) = mapInstance w"
  by (simp_all add: checkAndFitBounds_def Let_def)

lemma tick_passes:
  "passes (checkAndFitBounds p w) =
     (passes w)(p := (passes w p)\<lparr>markerCount := Suc (markerCount (passes w p))\<rparr>)"
  by (simp add: checkAndFitBounds_def Let_def)

lemma tick_fitBoundsCalls:
  "fitBoundsCalls (checkAndFitBounds p w) =
     (if Suc (markerCount (passes w p)) = totalRecords (passes w p) \<and> bounds (passes w p) \<noteq> []
      then fitBoundsCalls w @ [(p, bounds (passes w p))] else fitBoundsCalls w)"
  by (simp add: checkAndFitBounds_def Let_def)

lemma tick_fits_other: "q \<noteq> p \<Longrightarrow> fits q (checkAndFitBounds p w) = fits q w"
  by (simp add: fits_def tick_fitBoundsCalls)

lemma tick_fits_same:
  "fits p (checkAndFitBounds p w) =
     (if Suc (markerCount (passes w p)) = totalRecords (passes w p) \<and> bounds (passes w p) \<noteq> []
      then fits p w @ [(p, bounds (passes w p))] else fits p w)"
  by (simp add: fits_def tick_fitBoundsCalls)

lemma tick_obs [simp]:
  "outstanding q (checkAndFitBounds p w) = outstanding q w"
  "made q (checkAndFitBounds p w) = made q w"
  "on_map (checkAndFitBounds p w) = on_map w"
  by (simp_all add: outstanding_def made_def on_map_def)

lemma console_obs [simp]:
  "outstanding q (w\<lparr>console := c\<rparr>) = outstanding q w"
  "made q (w\<lparr>console := c\<rparr>) = made q w"
  "on_map (w\<lparr>console := c\<rparr>) = on_map w"
  "fits q (w\<lparr>console := c\<rparr>) = fits q w"
  by (simp_all add: outstanding_def made_def on_map_def fits_def)

lemma geocode_fields [simp]:
  "overlays (geocode rq w) = overlays w"
  "markersRef (geocode rq w) = markersRef w"
  "circlesRef (geocode rq w) = circlesRef w"
  "pending (geocode rq w) = pending w @ [rq]"
  "console (geocode rq w) = console w"
  "nextPass (geocode rq w) = nextPass w"
  "mapInstance (geocode rq w) = mapInstance w"
  "passes (geocode rq w) = passes w"
  "fitBoundsCalls (geocode rq w) = fitBoundsCalls w"
  by (simp_all add: geocode_def)

lemma geocode_obs [simp]:
  "outstanding q (geocode rq w) = outstanding q w + (if req_pass rq = q then 1 else 0)"
  "made q (geocode rq w) = made q w"
  "on_map (geocode rq w) = on_map w"
  "fits q (geocode rq w) = fits q w"
  by (simp_all add: outstanding_def made_def on_map_def fits_def)

subsection \<open>The invariant through the synchronous part of a pass\<close>

lemma pass_ok_console [simp]: "pass_ok k q (w\<lparr>console := c\<rparr>) = pass_ok k q w"
  by (simp add: pass_ok_def)

lemma unstarted_console [simp]: "unstarted q (w\<lparr>console := c\<rparr>) = unstarted q w"
  by (simp add: unstarted_def)

lemma pass_ok_tick_other: "q \<noteq> p \<Longrightarrow> pass_ok k q (checkAndFitBounds p w) = pass_ok k q w"
  by (simp add: pass_ok_def tick_passes tick_fits_other)

lemma unstarted_tick_other: "q \<noteq> p \<Longrightarrow> unstarted q (checkAndFitBounds p w) = unstarted q w"
  by (simp add: unstarted_def tick_passes tick_fits_other)

lemma pass_ok_tick_sync: "pass_ok (Suc k) p w \<Longrightarrow> pass_ok k p (checkAndFitBounds p w)"
  by (auto simp: pass_ok_def tick_passes tick_fits_same)

lemma pass_ok_geocode_other: "req_pass rq \<noteq> q \<Longrightarrow> pass_ok k q (geocode rq w) = pass_ok k q w"
  by (simp add: pass_ok_def)

lemma unstarted_geocode [simp]: "unstarted q (geocode rq w) = unstarted q w"
  by (simp add: unstarted_def)

lemma pass_ok_geocode_sync: "pass_ok (Suc k) (req_pass rq) w \<Longrightarrow> pass_ok k (req_pass rq) (geocode rq w)"
  by (auto simp: pass_ok_def)

lemma syncing_step:
  assumes "syncing (Suc k) p w" and "sync_step p w w'"
  shows "syncing k p w'"
proof -
  from assms(2) consider
    (req) rq where "req_pass rq = p" "w' = geocode rq w"
  | (tick) c where "w' = checkAndFitBounds p (w\<lparr>console := c\<rparr>)"
    unfolding sync_step_def by blast
  then show ?thesis
  proof cases
    case req
    with assms(1) show ?thesis
      unfolding syncing_def
      by (auto simp: pass_ok_geocode_other intro: pass_ok_geocode_sync)
  next
    case tick
    have "pass_ok k p w'"
      using assms(1) tick by (simp add: syncing_def pass_ok_tick_sync)
    moreover have "\<forall>q<nextPass w'. q \<noteq> p \<longrightarrow> pass_ok 0 q w'"
      using assms(1) tick by (simp add: syncing_def pass_ok_tick_other)
    moreover have "\<forall>q\<ge>nextPass w'. unstarted q w'"
      using assms(1) tick by (simp add: syncing_def unstarted_tick_other)
    ultimately show ?thesis
      using assms(1) tick by (simp add: syncing_def)
  qed
qed

lemma syncing_requirements:
  "syncing (length rs + k) p w \<Longrightarrow> syncing k p (requirements_forEach cp p i rs w)"
proof (induction rs arbitrary: i w)
  case Nil
  then show ?case by simp
next
  case (Cons r rs)
  have "syncing (length rs + k) p (requirement_each cp p i r w)"
    using Cons.prems requirement_each_sync by (auto intro: syncing_step)
  then show ?case
    using Cons.IH by simp
qed

lemma syncing_listings:
  "syncing (length rs + k) p w \<Longrightarrow> syncing k p (listings_forEach cp p rs w)"
proof (induction rs arbitrary: w)
  case Nil
  then show ?case by simp
next
  case (Cons r rs)
  have "syncing (length rs + k) p (listing_each cp p r w)"
    using Cons.prems listing_each_sync by (auto intro: syncing_step)
  then show ?case
    using Cons.IH by simp
qed

subsection \<open>Clearing\<close>

lemma made_label: "made q w = map fst (filter (\<lambda>x. snd x = q) (map label (overlays w)))"
  by (simp add: made_def label_def filter_map comp_def)

lemma setMap_null_label: "map label (setMap_null h os) = map label os"
  by (simp add: setMap_null_def map_update label_def list_update_same_conv)

lemma fold_setMap_null_label: "map label (fold setMap_null hs os) = map label os"
  by (induction hs arbitrary: os) (simp_all add: setMap_null_label)

lemma setMap_null_length [simp]: "length (setMap_null h os) = length os"
  by (simp add: setMap_null_def)

lemma fold_setMap_null_length [simp]: "length (fold setMap_null hs os) = length os"
  by (induction hs arbitrary: os) simp_all

lemma setMap_null_onMap:
  "i < length os \<Longrightarrow> onMap (setMap_null h os ! i) = (onMap (os ! i) \<and> i \<noteq> h)"
  by (auto simp: setMap_null_def nth_list_update)

lemma fold_setMap_null_onMap:
  "i < length os \<Longrightarrow> onMap (fold setMap_null hs os ! i) = (onMap (os ! i) \<and> i \<notin> set hs)"
  by (induction hs arbitrary: os) (auto simp: setMap_null_onMap)

lemma clear_fields [simp]:
  "markersRef (clear_overlays w) = []"
  "circlesRef (clear_overlays w) = []"
  "pending (clear_overlays w) = pending w"
  "console (clear_overlays w) = console w"
  "nextPass (clear_overlays w) = nextPass w"
  "mapInstance (clear_overlays w) = mapInstance w"
  "passes (clear_overlays w) = passes w"
  "fitBoundsCalls (clear_overlays w) = fitBoundsCalls w"
  "length (overlays (clear_overlays w)) = length (overlays w)"
  by (simp_all add: clear_overlays_def)

lemma clear_obs [simp]:
  "outstanding q (clear_overlays w) = outstanding q w"
  "made q (clear_overlays w) = made q w"
  "fits q (clear_overlays w) = fits q w"
  by (simp_all add: outstanding_def fits_def made_label)
     (simp add: clear_overlays_def fold_setMap_null_label)

lemma clear_onMap:
  "i < length (overlays w) \<Longrightarrow>
   onMap (overlays (clear_overlays w) ! i) =
     (onMap (overlays w ! i) \<and> i \<notin> set (markersRef w) \<and> i \<notin> set (circlesRef w))"
  by (auto simp: clear_overlays_def fold_setMap_null_onMap)

lemma clear_on_map: "held w \<Longrightarrow> on_map (clear_overlays w) = []"
proof -
  assume h: "held w"
  have "\<forall>ov \<in> set (overlays (clear_overlays w)). \<not> onMap ov"
  proof
    fix ov assume "ov \<in> set (overlays (clear_overlays w))"
    then obtain i where i: "i < length (overlays w)" "ov = overlays (clear_overlays w) ! i"
      by (auto simp: in_set_conv_nth)
    with h show "\<not> onMap ov"
      by (auto simp: clear_onMap held_def)
  qed
  then show ?thesis
    by (simp add: on_map_def filter_empty_conv)
qed

lemma mapInstance_obs [simp]:
  "outstanding q (w\<lparr>mapInstance := b\<rparr>) = outstanding q w"
  "made q (w\<lparr>mapInstance := b\<rparr>) = made q w"
  "on_map (w\<lparr>mapInstance := b\<rparr>) = on_map w"
  "fits q (w\<lparr>mapInstance := b\<rparr>) = fits q w"
  "held (w\<lparr>mapInstance := b\<rparr>) = held w"
  by (simp_all add: outstanding_def made_def on_map_def fits_def held_def)

subsection \<open>The effect keeps the invariant\<close>

lemma begin_pass_fields [simp]:
  "overlays (begin_pass e w) = overlays w"
  "markersRef (begin_pass e w) = markersRef w"
  "circlesRef (begin_pass e w) = circlesRef w"
  "pending (begin_pass e w) = pending w"
  "console (begin_pass e w) = console w"
  "nextPass (begin_pass e w) = Suc (nextPass w)"
  "mapInstance (begin_pass e w) = mapInstance w"
  "fitBoundsCalls (begin_pass e w) = fitBoundsCalls w"
  by (simp_all add: begin_pass_def)

lemma begin_pass_passes:
  "passes (begin_pass e w) =
     (passes w)(nextPass w :=
        \<lparr>markerCount = 0,
         totalRecords = record_count (requirementRecords e) + record_count (listingRecords e),
         bounds = []\<rparr>)"
  by (simp add: begin_pass_def)

lemma begin_pass_obs [simp]:
  "outstanding q (begin_pass e w) = outstanding q w"
  "made q (begin_pass e w) = made q w"
  "on_map (begin_pass e w) = on_map w"
  "fits q (begin_pass e w) = fits q w"
  by (simp_all add: outstanding_def made_def on_map_def fits_def)

lemma outstanding_unstarted:
  "\<forall>rq \<in> set (pending w). req_pass rq < nextPass w \<Longrightarrow> nextPass w \<le> q \<Longrightarrow> outstanding q w = 0"
  by (auto simp: outstanding_def filter_empty_conv)

lemma begin_pass_syncing:
  assumes "inv w"
  shows "syncing (record_count (requirementRecords e) + record_count (listingRecords e))
           (nextPass w) (begin_pass e w)"
proof -
  let ?p = "nextPass w"
  have pend: "\<forall>rq \<in> set (pending w). req_pass rq < nextPass w"
    using assms by (simp add: inv_def)
  have un: "unstarted ?p w"
    using assms by (simp add: inv_def)
  have "pass_ok (record_count (requirementRecords e) + record_count (listingRecords e)) ?p (begin_pass e w)"
    using un outstanding_unstarted [OF pend, of ?p]
    by (simp add: pass_ok_def begin_pass_passes unstarted_def)
  moreover have "\<forall>q < Suc ?p. q \<noteq> ?p \<longrightarrow> pass_ok 0 q (begin_pass e w)"
    using assms by (simp add: inv_def pass_ok_def begin_pass_passes)
  moreover have "\<forall>q \<ge> Suc ?p. unstarted q (begin_pass e w)"
    using assms by (simp add: inv_def unstarted_def begin_pass_passes)
  ultimately show ?thesis
    using pend by (auto simp: syncing_def)
qed

lemma syncing_done: "syncing 0 p w \<Longrightarrow> inv w"
  unfolding syncing_def inv_def by metis

lemma inv_clear: "inv w \<Longrightarrow> inv (clear_overlays (w\<lparr>mapInstance := b\<rparr>))"
  by (simp add: inv_def pass_ok_def unstarted_def)

lemma effect_unready: "\<not> ready e \<Longrightarrow> effect e w = w"
  by (auto simp: effect_def ready_def)

lemma effect_ready:
  "ready e \<Longrightarrow>
   effect e w =
     listings_block e (nextPass w)
       (requirements_block e (nextPass w)
          (begin_pass e (clear_overlays (w\<lparr>mapInstance := True\<rparr>))))"
  by (auto simp: effect_def ready_def Let_def)

lemma syncing_requirements_block:
  "syncing (record_count (requirementRecords e) + k) p w \<Longrightarrow>
   syncing k p (requirements_block e p w)"
  by (cases "requirementRecords e")
     (simp_all add: requirements_block_def record_count_def syncing_requirements)

lemma syncing_listings_block:
  "syncing (record_count (listingRecords e) + k) p w \<Longrightarrow>
   syncing k p (listings_block e p w)"
  by (cases "listingRecords e")
     (simp_all add: listings_block_def record_count_def syncing_listings)

lemma effect_syncing:
  assumes "inv w" and "ready e"
  shows "syncing 0 (nextPass w) (effect e w)"
proof -
  let ?w2 = "begin_pass e (clear_overlays (w\<lparr>mapInstance := True\<rparr>))"
  have "syncing (record_count (requirementRecords e) + record_count (listingRecords e))
          (nextPass w) ?w2"
    using begin_pass_syncing [OF inv_clear [OF assms(1)], of e True] by simp
  then have "syncing (record_count (listingRecords e) + 0) (nextPass w)
               (requirements_block e (nextPass w) ?w2)"
    by (simp add: syncing_requirements_block)
  then show ?thesis
    unfolding effect_ready [OF assms(2)] by (rule syncing_listings_block)
qed

lemma effect_inv: "inv w \<Longrightarrow> inv (effect e w)"
  by (cases "ready e") (auto simp: effect_unready dest: effect_syncing syncing_done)

subsection \<open>What a callback changes\<close>

lemmas callback_unfold =
  callback_def Let_def push_marker_def push_circle_def extend_bounds_def warn_def
  checkAndFitBounds_def geocode_ok_def

lemma callback_fields [simp]:
  "pending (callback rq r w) = pending w"
  "nextPass (callback rq r w) = nextPass w"
  "mapInstance (callback rq r w) = mapInstance w"
  by (simp_all add: callback_unfold split: closure.splits)

lemma callback_overlays:
  "overlays (callback rq r w) =
     overlays w @ map (new_overlay (req_pass rq)) (constructed (req_closure rq) r)"
  by (simp add: callback_unfold constructed_def split: closure.splits)

lemma callback_passes_other:
  "q \<noteq> req_pass rq \<Longrightarrow> passes (callback rq r w) q = passes w q"
  by (simp add: callback_unfold split: closure.splits)

lemma callback_passes_same:
  "markerCount (passes (callback rq r w) (req_pass rq)) = Suc (markerCount (passes w (req_pass rq)))"
  "totalRecords (passes (callback rq r w) (req_pass rq)) = totalRecords (passes w (req_pass rq))"
  "bounds (passes (callback rq r w) (req_pass rq)) = bounds (passes w (req_pass rq)) @ answered r"
  by (simp_all add: callback_unfold answered_def split: closure.splits)

lemma callback_fitBoundsCalls:
  "fitBoundsCalls (callback rq r w) =
     (if Suc (markerCount (passes w (req_pass rq))) = totalRecords (passes w (req_pass rq))
         \<and> bounds (passes w (req_pass rq)) @ answered r \<noteq> []
      then fitBoundsCalls w @ [(req_pass rq, bounds (passes w (req_pass rq)) @ answered r)]
      else fitBoundsCalls w)"
  by (simp add: callback_unfold answered_def split: closure.splits)

lemma callback_fits_other: "q \<noteq> req_pass rq \<Longrightarrow> fits q (callback rq r w) = fits q w"
  by (simp add: fits_def callback_fitBoundsCalls)

lemma callback_fits_same:
  "fits (req_pass rq) (callback rq r w) =
     (if Suc (markerCount (passes w (req_pass rq))) = totalRecords (passes w (req_pass rq))
         \<and> bounds (passes w (req_pass rq)) @ answered r \<noteq> []
      then fits (req_pass rq) w @ [(req_pass rq, bounds (passes w (req_pass rq)) @ answered r)]
      else fits (req_pass rq) w)"
  by (simp add: fits_def callback_fitBoundsCalls)

lemma callback_outstanding [simp]: "outstanding q (callback rq r w) = outstanding q w"
  by (simp add: outstanding_def)

lemma callback_made:
  "made q (callback rq r w) =
     made q w @ (if q = req_pass rq then constructed (req_closure rq) r else [])"
  by (simp add: made_def callback_overlays new_overlay_def filter_map comp_def)

lemma callback_on_map: "on_map (callback rq r w) = on_map w @ constructed (req_closure rq) r"
  by (simp add: on_map_def callback_overlays new_overlay_def filter_map comp_def)

subsection \<open>Delivering an answer\<close>

lemma step_Geocoded:
  "i < length (pending w) \<Longrightarrow>
   step (Geocoded i r) w = callback (pending w ! i) r (take_request i w)"
  by (simp add: take_request_def)

lemma take_request_fields [simp]:
  "overlays (take_request i w) = overlays w"
  "markersRef (take_request i w) = markersRef w"
  "circlesRef (take_request i w) = circlesRef w"
  "console (take_request i w) = console w"
  "nextPass (take_request i w) = nextPass w"
  "mapInstance (take_request i w) = mapInstance w"
  "passes (take_request i w) = passes w"
  "fitBoundsCalls (take_request i w) = fitBoundsCalls w"
  by (simp_all add: take_request_def)

lemma take_request_obs [simp]:
  "made q (take_request i w) = made q w"
  "on_map (take_request i w) = on_map w"
  "fits q (take_request i w) = fits q w"
  by (simp_all add: made_def on_map_def fits_def)

lemma take_request_outstanding:
  assumes "i < length (pending w)"
  shows "outstanding q w =
           outstanding q (take_request i w) + (if req_pass (pending w ! i) = q then 1 else 0)"
proof -
  have "pending w = take i (pending w) @ pending w ! i # drop (Suc i) (pending w)"
    using assms by (rule id_take_nth_drop)
  then have "filter (\<lambda>rq. req_pass rq = q) (pending w) =
               filter (\<lambda>rq. req_pass rq = q)
                 (take i (pending w) @ pending w ! i # drop (Suc i) (pending w))"
    by simp
  then show ?thesis
    by (simp add: outstanding_def take_request_def)
qed

lemma take_request_pending_set: "set (pending (take_request i w)) \<subseteq> set (pending w)"
  by (auto simp: take_request_def dest: in_set_takeD in_set_dropD)

subsection \<open>The invariant along a run\<close>

lemma callback_pass_ok:
  assumes "i < length (pending w)" and "pass_ok 0 q w"
  shows "pass_ok 0 q (callback (pending w ! i) r (take_request i w))"
proof (cases "q = req_pass (pending w ! i)")
  case False
  then show ?thesis
    using assms take_request_outstanding [OF assms(1), of q]
    by (simp add: pass_ok_def callback_passes_other callback_fits_other)
next
  case True
  then show ?thesis
    using assms take_request_outstanding [OF assms(1), of q]
    by (auto simp: pass_ok_def callback_passes_same callback_fits_same)
qed

lemma callback_unstarted:
  assumes "q \<noteq> req_pass rq" and "unstarted q w"
  shows "unstarted q (callback rq r (take_request i w))"
  using assms by (simp add: unstarted_def callback_passes_other callback_fits_other callback_made)

lemma step_inv: "inv w \<Longrightarrow> inv (step ev w)"
proof (cases ev)
  case (Effect e)
  assume "inv w"
  then show ?thesis
    using Effect by (simp add: effect_inv)
next
  case (Geocoded i r)
  assume iw: "inv w"
  show ?thesis
  proof (cases "i < length (pending w)")
    case False
    then show ?thesis
      using iw Geocoded by simp
  next
    case True
    let ?rq = "pending w ! i"
    let ?w' = "callback ?rq r (take_request i w)"
    have lt: "req_pass ?rq < nextPass w"
      using iw True by (simp add: inv_def)
    have "\<forall>rq \<in> set (pending ?w'). req_pass rq < nextPass ?w'"
      using iw take_request_pending_set [of i w] by (auto simp: inv_def)
    moreover have "\<forall>q < nextPass ?w'. pass_ok 0 q ?w'"
      using iw True by (simp add: inv_def callback_pass_ok)
    moreover have "\<forall>q \<ge> nextPass ?w'. unstarted q ?w'"
      using iw lt by (auto simp: inv_def intro!: callback_unstarted)
    ultimately have "inv ?w'"
      by (simp add: inv_def)
    then show ?thesis
      using Geocoded True by (simp only: step_Geocoded)
  qed
qed

lemma exec_Nil [simp]: "exec [] w = w"
  by (simp add: exec_def)

lemma exec_Cons [simp]: "exec (ev # evs) w = exec evs (step ev w)"
  by (simp add: exec_def)

lemma exec_append: "exec (evs @ evs') w = exec evs' (exec evs w)"
  by (simp add: exec_def)

lemma exec_inv: "inv w \<Longrightarrow> inv (exec evs w)"
  by (induction evs arbitrary: w) (simp_all add: step_inv)

lemma initial_inv: "inv initial_world"
  by (simp add: inv_def initial_world_def unstarted_def fits_def made_def)

subsection \<open>What the loops leave alone\<close>

lemma sync_frame_refl: "sync_frame p w w"
  by (simp add: sync_frame_def)

lemma sync_frame_trans:
  assumes "sync_frame p w w'" and "sync_frame p w' w''"
  shows "sync_frame p w w''"
proof -
  obtain n1 where n1: "pending w' = pending w @ n1" "\<forall>rq \<in> set n1. req_pass rq = p"
    using assms(1) unfolding sync_frame_def by blast
  obtain n2 where n2: "pending w'' = pending w' @ n2" "\<forall>rq \<in> set n2. req_pass rq = p"
    using assms(2) unfolding sync_frame_def by blast
  have "pending w'' = pending w @ (n1 @ n2) \<and> (\<forall>rq \<in> set (n1 @ n2). req_pass rq = p)"
    using n1 n2 by auto
  then have "\<exists>new. pending w'' = pending w @ new \<and> (\<forall>rq \<in> set new. req_pass rq = p)"
    by blast
  then show ?thesis
    using assms unfolding sync_frame_def by simp
qed

lemma sync_step_frame:
  assumes "sync_step p w w'"
  shows "sync_frame p w w'"
proof -
  from assms consider
    (req) rq where "req_pass rq = p" "w' = geocode rq w"
  | (tick) c where "w' = checkAndFitBounds p (w\<lparr>console := c\<rparr>)"
    unfolding sync_step_def by blast
  then show ?thesis
  proof cases
    case req
    then have "pending w' = pending w @ [rq] \<and> (\<forall>x \<in> set [rq]. req_pass x = p)"
      by simp
    then have "\<exists>new. pending w' = pending w @ new \<and> (\<forall>rq \<in> set new. req_pass rq = p)"
      by blast
    then show ?thesis
      using req unfolding sync_frame_def by simp
  next
    case tick
    then show ?thesis
      unfolding sync_frame_def by (simp add: tick_passes tick_fits_other)
  qed
qed

lemma requirements_forEach_frame: "sync_frame p w (requirements_forEach cp p i rs w)"
proof (induction rs arbitrary: i w)
  case Nil
  show ?case by (simp add: sync_frame_refl)
next
  case (Cons r rs)
  have "sync_frame p w (requirement_each cp p i r w)"
    by (rule sync_step_frame [OF requirement_each_sync])
  from sync_frame_trans [OF this Cons.IH] show ?case
    by simp
qed

lemma listings_forEach_frame: "sync_frame p w (listings_forEach cp p rs w)"
proof (induction rs arbitrary: w)
  case Nil
  show ?case by (simp add: sync_frame_refl)
next
  case (Cons r rs)
  have "sync_frame p w (listing_each cp p r w)"
    by (rule sync_step_frame [OF listing_each_sync])
  from sync_frame_trans [OF this Cons.IH] show ?case
    by simp
qed

lemma blocks_frame: "sync_frame p w (listings_block e p (requirements_block e p w))"
proof -
  have "sync_frame p w (requirements_block e p w)"
    by (cases "requirementRecords e")
       (simp_all add: requirements_block_def sync_frame_refl requirements_forEach_frame)
  moreover have "sync_frame p (requirements_block e p w) (listings_block e p (requirements_block e p w))"
    by (cases "listingRecords e")
       (simp_all add: listings_block_def sync_frame_refl listings_forEach_frame)
  ultimately show ?thesis
    by (rule sync_frame_trans)
qed

text \<open>The effect, seen from outside the new pass.\<close>

lemma effect_frame:
  assumes "ready e"
  shows "sync_frame (nextPass w) (begin_pass e (clear_overlays (w\<lparr>mapInstance := True\<rparr>))) (effect e w)"
  unfolding effect_ready [OF assms] by (rule blocks_frame)

lemma effect_nextPass: "nextPass (effect e w) = (if ready e then Suc (nextPass w) else nextPass w)"
  using effect_frame [of e w] by (auto simp: sync_frame_def effect_unready)

lemma effect_passes_other: "q \<noteq> nextPass w \<Longrightarrow> passes (effect e w) q = passes w q"
  using effect_frame [of e w]
  by (cases "ready e") (auto simp: sync_frame_def effect_unready begin_pass_passes)

lemma effect_fits_other: "q \<noteq> nextPass w \<Longrightarrow> fits q (effect e w) = fits q w"
  using effect_frame [of e w]
  by (cases "ready e") (auto simp: sync_frame_def effect_unready)

lemma effect_totalRecords:
  "ready e \<Longrightarrow>
   totalRecords (passes (effect e w) (nextPass w)) =
     record_count (requirementRecords e) + record_count (listingRecords e)"
  using effect_frame [of e w] by (auto simp: sync_frame_def begin_pass_passes)

lemma effect_bounds_new: "ready e \<Longrightarrow> bounds (passes (effect e w) (nextPass w)) = []"
  using effect_frame [of e w] by (auto simp: sync_frame_def begin_pass_passes)

lemma effect_pending:
  "\<exists>new. pending (effect e w) = pending w @ new \<and> (\<forall>rq \<in> set new. req_pass rq = nextPass w)"
proof (cases "ready e")
  case True
  then show ?thesis
    using effect_frame [of e w] by (auto simp: sync_frame_def)
next
  case False
  then have "pending (effect e w) = pending w @ []"
    by (simp add: effect_unready)
  then show ?thesis
    by (metis empty_iff empty_set)
qed

lemma effect_outstanding_other: "q \<noteq> nextPass w \<Longrightarrow> outstanding q (effect e w) = outstanding q w"
proof -
  assume q: "q \<noteq> nextPass w"
  obtain new where new: "pending (effect e w) = pending w @ new" "\<forall>rq \<in> set new. req_pass rq = nextPass w"
    using effect_pending by blast
  then have "filter (\<lambda>rq. req_pass rq = q) new = []"
    using q by (auto simp: filter_empty_conv)
  then show ?thesis
    using new by (simp add: outstanding_def)
qed

lemma effect_label: "map label (overlays (effect e w)) = map label (overlays w)"
proof (cases "ready e")
  case True
  then have "overlays (effect e w) = overlays (clear_overlays (w\<lparr>mapInstance := True\<rparr>))"
    using effect_frame [of e w] by (auto simp: sync_frame_def)
  then show ?thesis
    by (simp add: clear_overlays_def fold_setMap_null_label)
next
  case False
  then show ?thesis by (simp add: effect_unready)
qed

lemma effect_made: "made q (effect e w) = made q w"
  by (simp add: made_label effect_label)

lemma effect_bounds: "inv w \<Longrightarrow> bounds (passes (effect e w) q) = bounds (passes w q)"
proof (cases "q = nextPass w")
  case False
  then show ?thesis by (simp add: effect_passes_other)
next
  case True
  assume "inv w"
  then have "bounds (passes w q) = []"
    using True by (simp add: inv_def unstarted_def fresh_locals_def)
  then show ?thesis
    using True by (cases "ready e") (simp_all add: effect_bounds_new effect_unready)
qed

subsection \<open>Bounds and successful callbacks\<close>

lemma step_bounds:
  assumes "inv w"
  shows "length (bounds (passes (step ev w) p)) =
           length (bounds (passes w p)) + (if succeeded p ev w then 1 else 0)"
proof (cases ev)
  case (Effect e)
  then show ?thesis
    using assms by (simp add: effect_bounds)
next
  case (Geocoded i r)
  show ?thesis
  proof (cases "i < length (pending w)")
    case False
    then show ?thesis using Geocoded by simp
  next
    case True
    have "length (bounds (passes (callback (pending w ! i) r (take_request i w)) p)) =
            length (bounds (passes w p)) +
              (if req_pass (pending w ! i) = p \<and> geocode_ok r then 1 else 0)"
      by (cases "p = req_pass (pending w ! i)")
         (simp_all add: callback_passes_same callback_passes_other answered_def)
    then show ?thesis
      using Geocoded True by (simp only: step_Geocoded succeeded.simps) simp
  qed
qed

lemma exec_bounds:
  "inv w \<Longrightarrow>
   length (bounds (passes (exec evs w) p)) = length (bounds (passes w p)) + successes p evs w"
proof (induction evs arbitrary: w)
  case Nil
  show ?case by simp
next
  case (Cons ev evs)
  have "inv (step ev w)"
    using Cons.prems by (rule step_inv)
  from Cons.IH [OF this] show ?case
    using step_bounds [OF Cons.prems, of ev p] by simp
qed

lemma run_bounds:
  "bounds (passes (exec evs initial_world) p) \<noteq> [] \<longleftrightarrow> 0 < successes p evs initial_world"
proof -
  have "bounds (passes initial_world p) = []"
    by (simp add: initial_world_def fresh_locals_def)
  then have "length (bounds (passes (exec evs initial_world) p)) = successes p evs initial_world"
    using exec_bounds [OF initial_inv, of evs p] by simp
  then show ?thesis
    by (metis length_greater_0_conv)
qed

lemma run_pass_ok:
  "p < nextPass (exec evs initial_world) \<Longrightarrow> pass_ok 0 p (exec evs initial_world)"
  using exec_inv [OF initial_inv, of evs] by (simp add: inv_def)

subsection \<open>Unfolding the model on the examples\<close>

lemmas run_defs =
  exec_def effect_def begin_pass_def clear_overlays_def setMap_null_def requirements_block_def listings_block_def
  requirement_each_def requirement_try_def listing_each_def listing_try_def try_bind_def
  read_value_def read_string_def requirement_address_def linked_requirement_name_def
  trim_def strip.simps white_space_def starts_with_def callback_def push_marker_def push_circle_def extend_bounds_def
  new_overlay_def checkAndFitBounds_def warn_def geocode_def initial_world_def fresh_locals_def
  text_record_def broken_record_def example_properties_def example_inputs_def found_def
  not_found_def record_count_def Let_def

subsection \<open>Refs, console and circles\<close>

lemma callback_markersRef:
  "markersRef (callback rq r w) =
     markersRef w @ (if geocode_ok r then [length (overlays w)] else [])"
  by (cases "req_closure rq") (simp_all add: callback_unfold)

lemma callback_circlesRef:
  "circlesRef (callback rq r w) =
     circlesRef w @
       (if geocode_ok r \<and> is_requirement (req_closure rq) then [Suc (length (overlays w))] else [])"
  by (cases "req_closure rq") (simp_all add: callback_unfold)

lemma callback_console:
  "console (callback rq r w) =
     console w @
       (if geocode_ok r then []
        else [GeocodingFailed (closure_address (req_closure rq)) (status r)])"
  by (cases "req_closure rq") (simp_all add: callback_unfold closure_address_def)






subsection \<open>A pass with nothing outstanding stays as it is\<close>

lemma no_outstanding:
  "outstanding p w = 0 \<Longrightarrow> rq \<in> set (pending w) \<Longrightarrow> req_pass rq \<noteq> p"
  by (auto simp: outstanding_def filter_empty_conv)

lemma step_settled:
  assumes "inv w" and "p < nextPass w" and "outstanding p w = 0"
  shows "passes (step ev w) p = passes w p \<and> fits p (step ev w) = fits p w
         \<and> made p (step ev w) = made p w \<and> outstanding p (step ev w) = 0
         \<and> p < nextPass (step ev w)"
proof (cases ev)
  case (Effect e)
  have "p \<noteq> nextPass w"
    using assms(2) by simp
  then show ?thesis
    using Effect assms
    by (simp add: effect_passes_other effect_fits_other effect_made effect_outstanding_other
        effect_nextPass)
next
  case (Geocoded i r)
  show ?thesis
  proof (cases "i < length (pending w)")
    case False
    then show ?thesis using Geocoded assms by simp
  next
    case True
    then have ne: "p \<noteq> req_pass (pending w ! i)"
      using no_outstanding [OF assms(3), of "pending w ! i"] by auto
    have "outstanding p (take_request i w) = 0"
      using take_request_outstanding [OF True, of p] assms(3) by simp
    then show ?thesis
      using Geocoded True ne assms(2)
      by (simp only: step_Geocoded)
         (simp add: callback_passes_other callback_fits_other callback_made)
  qed
qed

lemma exec_settled:
  "inv w \<Longrightarrow> p < nextPass w \<Longrightarrow> outstanding p w = 0 \<Longrightarrow>
   passes (exec evs w) p = passes w p \<and> fits p (exec evs w) = fits p w
   \<and> made p (exec evs w) = made p w \<and> outstanding p (exec evs w) = 0"
proof (induction evs arbitrary: w)
  case Nil
  then show ?case by simp
next
  case (Cons ev evs)
  have s: "passes (step ev w) p = passes w p \<and> fits p (step ev w) = fits p w
         \<and> made p (step ev w) = made p w \<and> outstanding p (step ev w) = 0
         \<and> p < nextPass (step ev w)"
    using Cons.prems by (rule step_settled)
  have "inv (step ev w)"
    using Cons.prems(1) by (rule step_inv)
  from Cons.IH [OF this] s show ?case
    by simp
qed

lemma run_inv: "inv (exec evs initial_world)"
  by (rule exec_inv [OF initial_inv])

lemma effect_empty:
  assumes "ready e" and "records_of (requirementRecords e) = []"
    and "records_of (listingRecords e) = []"
  shows "effect e w = begin_pass e (clear_overlays (w\<lparr>mapInstance := True\<rparr>))"
  using assms(2,3) unfolding effect_ready [OF assms(1)]
  by (simp add: requirements_block_def listings_block_def records_of_def split: option.splits)

subsection \<open>Counting what the callbacks of a pass construct\<close>

lemma constructed_markers:
  "length (filter is_marker (constructed c r)) = (if geocode_ok r then 1 else 0)"
  by (simp add: constructed_def split: closure.splits)

lemma constructed_circles:
  "length (filter is_circle (constructed c r)) = (if geocode_ok r \<and> is_requirement c then 1 else 0)"
  by (cases c) (simp_all add: constructed_def)

lemma constructed_failed: "\<not> geocode_ok r \<Longrightarrow> constructed c r = []"
  by (simp add: constructed_def)

lemma constructed_no_circle: "\<not> is_requirement c \<Longrightarrow> filter is_circle (constructed c r) = []"
  by (cases c) (simp_all add: constructed_def)

lemma step_markers:
  "length (filter is_marker (made p (step ev w))) =
     length (filter is_marker (made p w)) + (if succeeded p ev w then 1 else 0)"
proof (cases ev)
  case (Effect e)
  then show ?thesis by (simp add: effect_made)
next
  case (Geocoded i r)
  show ?thesis
  proof (cases "i < length (pending w)")
    case False
    then show ?thesis using Geocoded by simp
  next
    case True
    then show ?thesis
      using Geocoded
      by (simp only: step_Geocoded succeeded.simps)
         (simp add: callback_made constructed_markers constructed_failed)
  qed
qed

lemma step_circles:
  "length (filter is_circle (made p (step ev w))) =
     length (filter is_circle (made p w)) + (if succeeded_requirement p ev w then 1 else 0)"
proof (cases ev)
  case (Effect e)
  then show ?thesis by (simp add: effect_made)
next
  case (Geocoded i r)
  show ?thesis
  proof (cases "i < length (pending w)")
    case False
    then show ?thesis using Geocoded by simp
  next
    case True
    then show ?thesis
      using Geocoded
      by (simp only: step_Geocoded succeeded_requirement.simps)
         (auto simp: callback_made constructed_circles constructed_failed constructed_no_circle)
  qed
qed

lemma exec_markers:
  "length (filter is_marker (made p (exec evs w))) =
     length (filter is_marker (made p w)) + successes p evs w"
  by (induction evs arbitrary: w) (simp_all del: step.simps add: step_markers)

lemma exec_circles:
  "length (filter is_circle (made p (exec evs w))) =
     length (filter is_circle (made p w)) + requirement_successes p evs w"
  by (induction evs arbitrary: w) (simp_all del: step.simps add: step_circles)

lemma successes_append:
  "successes p (evs @ evs') w = successes p evs w + successes p evs' (exec evs w)"
  by (induction evs arbitrary: w) (simp_all del: step.simps)

lemma step_nextPass: "nextPass w \<le> nextPass (step ev w)"
  by (cases ev) (simp_all add: effect_nextPass)

lemma step_outstanding:
  assumes "p < nextPass w"
  shows "(if succeeded p ev w then 1 else 0) + outstanding p (step ev w) \<le> outstanding p w"
proof (cases ev)
  case (Effect e)
  have "p \<noteq> nextPass w"
    using assms by simp
  then show ?thesis
    using Effect by (simp add: effect_outstanding_other)
next
  case (Geocoded i r)
  show ?thesis
  proof (cases "i < length (pending w)")
    case False
    then show ?thesis using Geocoded by simp
  next
    case True
    then show ?thesis
      using Geocoded take_request_outstanding [OF True, of p]
      by (simp only: step_Geocoded succeeded.simps) simp
  qed
qed

lemma exec_outstanding:
  "p < nextPass w \<Longrightarrow> successes p evs w + outstanding p (exec evs w) \<le> outstanding p w"
proof (induction evs arbitrary: w)
  case Nil
  show ?case by simp
next
  case (Cons ev evs)
  have "p < nextPass (step ev w)"
    using Cons.prems step_nextPass [of w ev] by simp
  from Cons.IH [OF this] show ?case
    using step_outstanding [OF Cons.prems, of ev] by (simp del: step.simps)
qed

lemma successes_unstarted:
  assumes "p = nextPass (exec evs initial_world)"
  shows "successes p evs initial_world = 0"
proof -
  have "unstarted p (exec evs initial_world)"
    using run_inv [of evs] assms by (simp add: inv_def)
  then have "bounds (passes (exec evs initial_world) p) = []"
    by (simp add: unstarted_def fresh_locals_def)
  then show ?thesis
    using run_bounds [of evs p] by simp
qed

subsection \<open>Requests are issued for records with an address only\<close>

lemma requirement_address_truthy: "truthy (requirement_address v) \<Longrightarrow> truthy v"
  by (simp add: requirement_address_def split: if_splits)

lemma requirement_each_outstanding:
  "outstanding p (requirement_each cp p i r w) \<le>
     outstanding p w + (if requirement_has_address cp r then 1 else 0)"
  unfolding requirement_each_def requirement_try_def try_bind_def read_value_def
    requirement_has_address_def
  by (auto simp: Let_def warn_def dest: requirement_address_truthy
      split: sum.splits option.splits)

lemma listing_each_outstanding:
  "outstanding p (listing_each cp p r w) \<le>
     outstanding p w + (if listing_has_address cp r then 1 else 0)"
  unfolding listing_each_def listing_try_def try_bind_def read_string_def
    listing_has_address_def
  by (simp add: warn_def split: sum.splits option.splits list.splits)

lemma requirements_forEach_outstanding:
  "outstanding p (requirements_forEach cp p i rs w) \<le>
     outstanding p w + length (filter (requirement_has_address cp) rs)"
proof (induction rs arbitrary: i w)
  case Nil
  show ?case by simp
next
  case (Cons r rs)
  show ?case
    using Cons.IH [of "Suc i" "requirement_each cp p i r w"]
      requirement_each_outstanding [of p cp i r w]
    by (simp split: if_splits)
qed

lemma listings_forEach_outstanding:
  "outstanding p (listings_forEach cp p rs w) \<le>
     outstanding p w + length (filter (listing_has_address cp) rs)"
proof (induction rs arbitrary: w)
  case Nil
  show ?case by simp
next
  case (Cons r rs)
  show ?case
    using Cons.IH [of "listing_each cp p r w"] listing_each_outstanding [of p cp r w]
    by (simp split: if_splits)
qed

lemma requirements_block_outstanding:
  "outstanding p (requirements_block e p w) \<le>
     outstanding p w
     + length (filter (requirement_has_address (customPropertyValueByKey e))
                 (records_of (requirementRecords e)))"
  by (cases "requirementRecords e")
     (simp_all add: requirements_block_def records_of_def requirements_forEach_outstanding)

lemma listings_block_outstanding:
  "outstanding p (listings_block e p w) \<le>
     outstanding p w
     + length (filter (listing_has_address (customPropertyValueByKey e))
                 (records_of (listingRecords e)))"
  by (cases "listingRecords e")
     (simp_all add: listings_block_def records_of_def listings_forEach_outstanding)

lemma effect_outstanding_new:
  assumes "inv w" and "ready e"
  shows "outstanding (nextPass w) (effect e w) \<le> addressed e"
proof -
  let ?p = "nextPass w"
  let ?w2 = "begin_pass e (clear_overlays (w\<lparr>mapInstance := True\<rparr>))"
  have z: "outstanding ?p ?w2 = 0"
    using assms(1) by (simp add: inv_def outstanding_unstarted)
  show ?thesis
    unfolding effect_ready [OF assms(2)] addressed_def
    using z requirements_block_outstanding [of ?p e ?w2]
      listings_block_outstanding [of ?p e "requirements_block e ?p ?w2"]
    by linarith
qed

subsection \<open>Attached overlays are held by the refs\<close>

lemma effect_overlays:
  "ready e \<Longrightarrow> overlays (effect e w) = overlays (clear_overlays (w\<lparr>mapInstance := True\<rparr>))"
  using effect_frame [of e w] by (simp add: sync_frame_def)

lemma effect_refs: "ready e \<Longrightarrow> markersRef (effect e w) = [] \<and> circlesRef (effect e w) = []"
  using effect_frame [of e w] by (simp add: sync_frame_def)

lemma effect_on_map:
  assumes "held w" and "ready e"
  shows "on_map (effect e w) = []"
proof -
  have "on_map (effect e w) = on_map (clear_overlays (w\<lparr>mapInstance := True\<rparr>))"
    by (simp add: on_map_def effect_overlays [OF assms(2)])
  then show ?thesis
    using assms(1) by (simp add: clear_on_map)
qed

lemma on_map_empty: "on_map w = [] \<Longrightarrow> held w"
  by (auto simp: on_map_def held_def filter_empty_conv)

lemma effect_held: "held w \<Longrightarrow> held (effect e w)"
  by (cases "ready e") (simp_all add: effect_unready effect_on_map on_map_empty)

lemma constructed_length:
  "length (constructed c r) =
     (if geocode_ok r then (if is_requirement c then 2 else 1) else 0)"
  by (cases c) (simp_all add: constructed_def)

lemma callback_held:
  assumes "held w"
  shows "held (callback rq r (take_request i w))"
  unfolding held_def
proof (intro allI impI)
  let ?w' = "callback rq r (take_request i w)"
  let ?n = "length (overlays w)"
  fix k
  assume k: "k < length (overlays ?w')" and on: "onMap (overlays ?w' ! k)"
  have ov: "overlays ?w' = overlays w @ map (new_overlay (req_pass rq)) (constructed (req_closure rq) r)"
    by (simp add: callback_overlays)
  have mr: "markersRef ?w' = markersRef w @ (if geocode_ok r then [?n] else [])"
    by (simp add: callback_markersRef)
  have cr: "circlesRef ?w' =
              circlesRef w @ (if geocode_ok r \<and> is_requirement (req_closure rq) then [Suc ?n] else [])"
    by (simp add: callback_circlesRef)
  show "k \<in> set (markersRef ?w') \<union> set (circlesRef ?w')"
  proof (cases "k < ?n")
    case True
    then have "onMap (overlays w ! k)"
      using on by (simp add: ov nth_append)
    then have "k \<in> set (markersRef w) \<union> set (circlesRef w)"
      using assms True by (simp add: held_def)
    then show ?thesis
      by (auto simp: mr cr)
  next
    case False
    have "k < ?n + length (constructed (req_closure rq) r)"
      using k by (simp add: ov)
    then have "geocode_ok r \<and> (k = ?n \<or> (k = Suc ?n \<and> is_requirement (req_closure rq)))"
      using False by (auto simp: constructed_length split: if_splits)
    then show ?thesis
      by (auto simp: mr cr)
  qed
qed

lemma step_held: "held w \<Longrightarrow> held (step ev w)"
proof (cases ev)
  case (Effect e)
  assume "held w"
  then show ?thesis
    using Effect by (simp add: effect_held)
next
  case (Geocoded i r)
  assume h: "held w"
  show ?thesis
  proof (cases "i < length (pending w)")
    case False
    then show ?thesis using h Geocoded by simp
  next
    case True
    then show ?thesis
      using Geocoded callback_held [OF h] by (simp only: step_Geocoded)
  qed
qed

lemma exec_held: "held w \<Longrightarrow> held (exec evs w)"
  by (induction evs arbitrary: w) (simp_all del: step.simps add: step_held)

lemma run_held: "held (exec evs initial_world)"
  by (rule exec_held) (simp add: held_def initial_world_def)

subsection \<open>What a run of answers attaches\<close>

lemma answers_on_map:
  "\<forall>ev \<in> set evs. is_answer ev \<Longrightarrow>
   on_map (exec evs w) = on_map w @ answer_shapes evs (map req_closure (pending w))"
proof (induction evs arbitrary: w)
  case Nil
  show ?case by simp
next
  case (Cons ev evs)
  then obtain i r where ev: "ev = Geocoded i r"
    by (cases ev) auto
  have rest: "\<forall>ev \<in> set evs. is_answer ev"
    using Cons.prems by simp
  show ?case
  proof (cases "i < length (pending w)")
    case False
    then show ?thesis
      using Cons.IH [OF rest, of w] ev by simp
  next
    case True
    let ?w' = "callback (pending w ! i) r (take_request i w)"
    have "map req_closure (pending ?w') =
            take i (map req_closure (pending w)) @ drop (Suc i) (map req_closure (pending w))"
      by (simp add: take_request_def take_map drop_map)
    moreover have "on_map ?w' = on_map w @ constructed (req_closure (pending w ! i)) r"
      by (simp add: callback_on_map)
    ultimately show ?thesis
      using Cons.IH [OF rest, of ?w'] ev True
      by (simp del: step.simps add: step_Geocoded)
  qed
qed

subsection \<open>The requests a pass issues do not depend on the world it starts in\<close>

lemma requirement_each_queue:
  "map req_closure (pending u) = map req_closure (pending v) \<Longrightarrow>
   map req_closure (pending (requirement_each cp p i r u)) =
     map req_closure (pending (requirement_each cp q j r v))"
  unfolding requirement_each_def requirement_try_def try_bind_def
  by (simp add: Let_def warn_def split: sum.splits)

lemma listing_each_queue:
  "map req_closure (pending u) = map req_closure (pending v) \<Longrightarrow>
   map req_closure (pending (listing_each cp p r u)) =
     map req_closure (pending (listing_each cp q r v))"
  unfolding listing_each_def listing_try_def try_bind_def
  by (simp add: warn_def split: sum.splits option.splits list.splits)

lemma requirements_forEach_queue:
  "map req_closure (pending u) = map req_closure (pending v) \<Longrightarrow>
   map req_closure (pending (requirements_forEach cp p i rs u)) =
     map req_closure (pending (requirements_forEach cp q i rs v))"
proof (induction rs arbitrary: i u v)
  case Nil
  then show ?case by simp
next
  case (Cons r rs)
  have "map req_closure (pending (requirement_each cp p i r u)) =
          map req_closure (pending (requirement_each cp q i r v))"
    using Cons.prems by (rule requirement_each_queue)
  from Cons.IH [OF this] show ?case
    by simp
qed

lemma listings_forEach_queue:
  "map req_closure (pending u) = map req_closure (pending v) \<Longrightarrow>
   map req_closure (pending (listings_forEach cp p rs u)) =
     map req_closure (pending (listings_forEach cp q rs v))"
proof (induction rs arbitrary: u v)
  case Nil
  then show ?case by simp
next
  case (Cons r rs)
  have "map req_closure (pending (listing_each cp p r u)) =
          map req_closure (pending (listing_each cp q r v))"
    using Cons.prems by (rule listing_each_queue)
  from Cons.IH [OF this] show ?case
    by simp
qed

lemma effect_queue:
  assumes "pending u = []" and "pending v = []"
  shows "map req_closure (pending (effect e u)) = map req_closure (pending (effect e v))"
proof (cases "ready e")
  case False
  then show ?thesis
    using assms by (simp add: effect_unready)
next
  case True
  let ?u2 = "begin_pass e (clear_overlays (u\<lparr>mapInstance := True\<rparr>))"
  let ?v2 = "begin_pass e (clear_overlays (v\<lparr>mapInstance := True\<rparr>))"
  have "map req_closure (pending ?u2) = map req_closure (pending ?v2)"
    using assms by simp
  then have "map req_closure (pending (requirements_block e (nextPass u) ?u2)) =
               map req_closure (pending (requirements_block e (nextPass v) ?v2))"
    by (cases "requirementRecords e")
       (simp_all add: requirements_block_def requirements_forEach_queue)
  then have "map req_closure
               (pending (listings_block e (nextPass u) (requirements_block e (nextPass u) ?u2))) =
             map req_closure
               (pending (listings_block e (nextPass v) (requirements_block e (nextPass v) ?v2)))"
    by (cases "listingRecords e")
       (simp_all add: listings_block_def listings_forEach_queue)
  then show ?thesis
    by (simp add: effect_ready [OF True])
qed

lemma pass_on_map:
  assumes "ready e" and "held w" and "\<forall>ev \<in> set answers. is_answer ev"
  shows "on_map (exec (Effect e # answers) w) =
           answer_shapes answers (map req_closure (pending (effect e w)))"
  using answers_on_map [OF assms(3), of "effect e w"] effect_on_map [OF assms(2,1)]
  by simp

subsection \<open>Which callback each loop hands to the geocoder\<close>










subsection \<open>Schedules\<close>

lemma schedule_answers: "\<forall>ev \<in> set (schedule rs order). is_answer ev"
  by (induction rs order rule: schedule.induct) simp_all

lemma all_shapes_remove:
  assumes "i < length cs" and "length rs = length cs"
  shows "all_shapes cs rs =
           mset (constructed (cs ! i) (rs ! i))
           + all_shapes (take i cs @ drop (Suc i) cs) (take i rs @ drop (Suc i) rs)"
proof -
  have i: "i < length (zip cs rs)"
    using assms by simp
  have "zip cs rs = take i (zip cs rs) @ zip cs rs ! i # drop (Suc i) (zip cs rs)"
    using i by (rule id_take_nth_drop)
  then have z: "zip cs rs =
      zip (take i cs) (take i rs) @ (cs ! i, rs ! i) # zip (drop (Suc i) cs) (drop (Suc i) rs)"
    using assms by (simp add: take_zip drop_zip)
  have "zip (take i cs @ drop (Suc i) cs) (take i rs @ drop (Suc i) rs) =
          zip (take i cs) (take i rs) @ zip (drop (Suc i) cs) (drop (Suc i) rs)"
    using assms by (simp add: zip_append)
  then show ?thesis
    unfolding all_shapes_def by (subst z) simp
qed

lemma schedule_shapes:
  "length rs = length cs \<Longrightarrow>
   mset (answer_shapes (schedule rs order) cs)
     + all_shapes (unanswered order cs) (unanswered order rs) = all_shapes cs rs"
proof (induction order arbitrary: rs cs)
  case Nil
  show ?case by simp
next
  case (Cons i order)
  show ?case
  proof (cases "i < length rs")
    case False
    then show ?thesis
      using Cons.IH [OF Cons.prems] Cons.prems by simp
  next
    case True
    let ?rs = "take i rs @ drop (Suc i) rs"
    let ?cs = "take i cs @ drop (Suc i) cs"
    have "length ?rs = length ?cs"
      using Cons.prems by simp
    from Cons.IH [OF this] show ?thesis
      using True Cons.prems all_shapes_remove [of i cs rs] by simp
  qed
qed

lemma schedule_pending:
  "length rs = length (pending u) \<Longrightarrow>
   map req_closure (pending (exec (schedule rs order) u)) =
     unanswered order (map req_closure (pending u))"
proof (induction order arbitrary: rs u)
  case Nil
  show ?case by simp
next
  case (Cons i order)
  show ?case
  proof (cases "i < length rs")
    case False
    then show ?thesis
      using Cons.IH [OF Cons.prems] Cons.prems by simp
  next
    case True
    let ?rs = "take i rs @ drop (Suc i) rs"
    let ?u = "callback (pending u ! i) (rs ! i) (take_request i u)"
    have i: "i < length (pending u)"
      using True Cons.prems by simp
    have "length ?rs = length (pending ?u)"
      using Cons.prems by (simp add: take_request_def)
    from Cons.IH [OF this] show ?thesis
      using True i by (simp del: step.simps add: step_Geocoded take_request_def take_map drop_map)
  qed
qed

lemma unanswered_Nil:
  "length xs = length ys \<Longrightarrow> unanswered order xs = [] \<Longrightarrow> unanswered order ys = []"
proof (induction order arbitrary: xs ys)
  case Nil
  then show ?case by simp
next
  case (Cons i order)
  show ?case
  proof (cases "i < length xs")
    case False
    then show ?thesis
      using Cons.IH [of xs ys] Cons.prems by simp
  next
    case True
    have "length (take i xs @ drop (Suc i) xs) = length (take i ys @ drop (Suc i) ys)"
      using Cons.prems(1) by simp
    from Cons.IH [OF this] show ?thesis
      using True Cons.prems by simp
  qed
qed

lemma settled_pass_shapes:
  assumes "ready e" and "held w" and "length rs = length (pending (effect e w))"
    and "pending (exec (Effect e # schedule rs order) w) = []"
  shows "mset (on_map (exec (Effect e # schedule rs order) w)) =
           all_shapes (map req_closure (pending (effect e w))) rs"
proof -
  let ?cs = "map req_closure (pending (effect e w))"
  have len: "length rs = length ?cs"
    using assms(3) by simp
  have "unanswered order ?cs = map req_closure (pending (exec (schedule rs order) (effect e w)))"
    using schedule_pending [OF assms(3), of order] by simp
  then have c: "unanswered order ?cs = []"
    using assms(4) by simp
  have r: "unanswered order rs = []"
    using unanswered_Nil [OF len [symmetric] c] .
  have "on_map (exec (Effect e # schedule rs order) w) = answer_shapes (schedule rs order) ?cs"
    using assms(1,2) schedule_answers by (rule pass_on_map)
  then show ?thesis
    using schedule_shapes [OF len, of order] c r by (simp add: all_shapes_def)
qed

section \<open>The claims\<close>

text \<open>
  Claim C1. In every run of the page and for every pass \<open>p\<close> that has started,
  \<open>fitBounds\<close> is called for \<open>p\<close> at most once; it is called exactly once if and only
  if the counter \<open>markerCount\<close> of \<open>p\<close> has reached \<open>totalRecords\<close> and at least one
  geocode callback of \<open>p\<close> succeeded; and it is never called when none succeeded.
\<close>

theorem fitBounds_exactly_once:
  assumes "p < nextPass (exec evs initial_world)"
  shows "length (fits p (exec evs initial_world)) \<le> 1
         \<and> (length (fits p (exec evs initial_world)) = 1 \<longleftrightarrow>
              markerCount (passes (exec evs initial_world) p) =
                totalRecords (passes (exec evs initial_world) p)
              \<and> 0 < successes p evs initial_world)
         \<and> (successes p evs initial_world = 0 \<longrightarrow> fits p (exec evs initial_world) = [])"
  using run_pass_ok [OF assms] run_bounds [of evs p]
  by (auto simp: pass_ok_def split: if_splits)

theorem fitBounds_exactly_once_witness:
  "0 < nextPass (exec example_run initial_world)
   \<and> length (fits 0 (exec example_run initial_world)) = 1
   \<and> markerCount (passes (exec example_run initial_world) 0) = 3
   \<and> totalRecords (passes (exec example_run initial_world) 0) = 3
   \<and> 0 < successes 0 example_run initial_world
   \<and> 0 < nextPass (exec failed_run initial_world)
   \<and> markerCount (passes (exec failed_run initial_world) 0) =
       totalRecords (passes (exec failed_run initial_world) 0)
   \<and> successes 0 failed_run initial_world = 0
   \<and> fits 0 (exec failed_run initial_world) = []"
proof -
  have h: "0 < nextPass (exec example_run initial_world)"
    by (simp add: example_run_def run_defs)
  have c: "markerCount (passes (exec example_run initial_world) 0) = 3"
    "totalRecords (passes (exec example_run initial_world) 0) = 3"
    by (simp_all add: example_run_def run_defs)
  have s: "0 < successes 0 example_run initial_world"
    by (simp add: example_run_def run_defs geocode_ok_def)
  have h': "0 < nextPass (exec failed_run initial_world)"
    by (simp add: failed_run_def run_defs)
  have c': "markerCount (passes (exec failed_run initial_world) 0) =
              totalRecords (passes (exec failed_run initial_world) 0)"
    by (simp add: failed_run_def run_defs)
  have s': "successes 0 failed_run initial_world = 0"
    by (simp add: failed_run_def run_defs geocode_ok_def)
  show ?thesis
    using fitBounds_exactly_once [OF h] fitBounds_exactly_once [OF h'] h c s h' c' s'
    by simp
qed

text \<open>
  Claim C2 as stated fails: a circle is an overlay too. One requirement whose address
  resolves gives two overlays (marker and circle) for one record with an address and one
  successful callback.
\<close>

theorem overlays_exceed_addresses_counterexample:
  "\<not> (length (made 0 (exec one_requirement_run initial_world))
        \<le> addressed (example_inputs [text_record ''R1'' ''A''] [])
      \<and> length (made 0 (exec one_requirement_run initial_world)) =
          successes 0 one_requirement_run initial_world)"
  by (simp add: one_requirement_run_def made_def addressed_def records_of_def
      requirement_has_address_def listing_has_address_def geocode_ok_def run_defs)

text \<open>
  Claim C2, amended. For the pass started by a run of the effect, at any later moment: the
  markers its callbacks have constructed number exactly its successful geocode
  callbacks, which are at most the records with a non-empty address field; the circles
  they have constructed number exactly the successful callbacks for requirements.
\<close>

theorem markers_match_successes:
  assumes "ready e" and "p = nextPass (exec before initial_world)"
    and "run = before @ Effect e # later"
  shows "length (filter is_marker (made p (exec run initial_world))) =
           successes p run initial_world
         \<and> successes p run initial_world \<le> addressed e
         \<and> length (filter is_circle (made p (exec run initial_world))) =
             requirement_successes p run initial_world"
proof -
  let ?w = "exec before initial_world"
  have iw: "inv ?w"
    by (rule run_inv)
  have m: "made p initial_world = []"
    by (simp add: made_def initial_world_def)
  have s0: "successes p before initial_world = 0"
    using assms(2) by (rule successes_unstarted)
  have lt: "p < nextPass (effect e ?w)"
    using assms(1,2) by (simp add: effect_nextPass)
  have "successes p later (effect e ?w) \<le> outstanding p (effect e ?w)"
    using exec_outstanding [OF lt, of later] by simp
  also have "\<dots> \<le> addressed e"
    using effect_outstanding_new [OF iw assms(1)] assms(2) by simp
  finally have "successes p later (effect e ?w) \<le> addressed e" .
  moreover have "successes p run initial_world = successes p later (effect e ?w)"
    using s0 by (simp add: assms(3) successes_append)
  ultimately show ?thesis
    using exec_markers [of p run initial_world] exec_circles [of p run initial_world] m
    by simp
qed

theorem markers_match_successes_witness:
  "ready (example_inputs [text_record ''R1'' ''A''] [])
   \<and> 0 = nextPass (exec [] initial_world)
   \<and> length (filter is_marker (made 0 (exec one_requirement_run initial_world))) = 1
   \<and> successes 0 one_requirement_run initial_world = 1
   \<and> length (filter is_circle (made 0 (exec one_requirement_run initial_world))) = 1"
proof -
  have r: "ready (example_inputs [text_record ''R1'' ''A''] [])"
    by (simp add: ready_def example_inputs_def)
  have n: "0 = nextPass (exec [] initial_world)"
    by (simp add: initial_world_def)
  have e: "one_requirement_run =
             [] @ Effect (example_inputs [text_record ''R1'' ''A''] []) # [Geocoded 0 (found (1, 1))]"
    by (simp add: one_requirement_run_def)
  have s: "successes 0 one_requirement_run initial_world = 1"
    by (simp add: one_requirement_run_def geocode_ok_def run_defs)
  have q: "requirement_successes 0 one_requirement_run initial_world = 1"
    by (simp add: one_requirement_run_def geocode_ok_def run_defs)
  show ?thesis
    using markers_match_successes [OF r n e] r n s q by simp
qed

text \<open>
  Claim C3. A pass that starts sets \<open>totalRecords\<close> to the number of requirement
  records plus the number of listing records: every record counts, whatever its address
  cell holds.
\<close>

theorem expected_count_is_all_records:
  assumes "ready e"
  shows "totalRecords (passes (effect e w) (nextPass w)) =
           length (records_of (requirementRecords e)) + length (records_of (listingRecords e))"
  using effect_totalRecords [OF assms, of w]
  by (simp add: record_count_def records_of_def split: option.splits)

theorem expected_count_is_all_records_witness:
  "ready (example_inputs [text_record ''R1'' ''A''] [text_record ''L1'' '''', broken_record])
   \<and> totalRecords
        (passes (effect (example_inputs [text_record ''R1'' ''A''] [text_record ''L1'' '''', broken_record])
                   initial_world) 0) = 3"
proof -
  have r: "ready (example_inputs [text_record ''R1'' ''A''] [text_record ''L1'' '''', broken_record])"
    by (simp add: ready_def example_inputs_def)
  show ?thesis
    using expected_count_is_all_records [OF r, of initial_world] r
    by (simp add: records_of_def example_inputs_def initial_world_def)
qed



text \<open>
  Claim C5, on the code. A record whose address text is empty or absent is counted at
  once: nothing is handed to the geocoder and nothing is constructed. The requirements
  loop logs \<open>No address found for requirement record\<close> with the position of the record;
  the listings loop writes nothing to the console.
\<close>

theorem missing_address_listing_is_not_logged:
  "(read_value (requirementAddressField cp) row = Inr v \<and> \<not> truthy (requirement_address v) \<longrightarrow>
      pending (requirement_each cp p i row w) = pending w
      \<and> overlays (requirement_each cp p i row w) = overlays w
      \<and> markerCount (passes (requirement_each cp p i row w) p) = Suc (markerCount (passes w p))
      \<and> console (requirement_each cp p i row w) = console w @ [NoAddressForRequirement (i + 1)])
   \<and> (listing_try cp p row w = Inr w' \<and> \<not> listing_has_address cp row \<longrightarrow>
      pending (listing_each cp p row w) = pending w
      \<and> overlays (listing_each cp p row w) = overlays w
      \<and> markerCount (passes (listing_each cp p row w) p) = Suc (markerCount (passes w p))
      \<and> console (listing_each cp p row w) = console w)"
proof -
  have A: "requirement_each cp p i row w = checkAndFitBounds p (warn (NoAddressForRequirement (i + 1)) w)"
    if "read_value (requirementAddressField cp) row = Inr v" "\<not> truthy (requirement_address v)"
    using that by (simp add: requirement_each_def requirement_try_def try_bind_def Let_def)
  have B: "listing_each cp p row w = checkAndFitBounds p w"
    if "listing_try cp p row w = Inr w'" "\<not> listing_has_address cp row"
    using that
    unfolding listing_each_def listing_try_def try_bind_def read_string_def listing_has_address_def
    by (auto split: sum.splits option.splits list.splits)
  show ?thesis
    using A B by (auto simp: tick_passes warn_def)
qed

theorem missing_address_listing_is_not_logged_witness:
  "read_value (requirementAddressField example_properties) (text_record ''R1'' '''') = Inr Null
   \<and> \<not> truthy (requirement_address Null)
   \<and> listing_try example_properties 0 (text_record ''L1'' '''') initial_world =
       Inr (checkAndFitBounds 0 initial_world)
   \<and> \<not> listing_has_address example_properties (text_record ''L1'' '''')
   \<and> console (requirement_each example_properties 0 0 (text_record ''R1'' '''') initial_world) =
       [NoAddressForRequirement 1]
   \<and> console (listing_each example_properties 0 (text_record ''L1'' '''') initial_world) = []
   \<and> markerCount (passes (listing_each example_properties 0 (text_record ''L1'' '''') initial_world) 0) = 1"
proof -
  have a: "read_value (requirementAddressField example_properties) (text_record ''R1'' '''') = Inr Null"
    by (simp add: read_value_def example_properties_def text_record_def)
  have b: "\<not> truthy (requirement_address Null)"
    by (simp add: requirement_address_def)
  have c: "listing_try example_properties 0 (text_record ''L1'' '''') initial_world =
             Inr (checkAndFitBounds 0 initial_world)"
    by (simp add: listing_try_def try_bind_def read_string_def read_value_def
        example_properties_def text_record_def)
  have d: "\<not> listing_has_address example_properties (text_record ''L1'' '''')"
    by (simp add: listing_has_address_def example_properties_def text_record_def)
  have i: "console initial_world = [] \<and> markerCount (passes initial_world 0) = 0"
    by (simp add: initial_world_def fresh_locals_def)
  have "console (requirement_each example_properties 0 0 (text_record ''R1'' '''') initial_world) =
          console initial_world @ [NoAddressForRequirement (0 + 1)]
        \<and> console (listing_each example_properties 0 (text_record ''L1'' '''') initial_world) =
          console initial_world
        \<and> markerCount (passes (listing_each example_properties 0 (text_record ''L1'' '''') initial_world) 0) =
          Suc (markerCount (passes initial_world 0))"
    using missing_address_listing_is_not_logged
            [where cp = example_properties and row = "text_record ''R1'' ''''" and v = Null
               and p = 0 and i = 0 and w = initial_world]
          missing_address_listing_is_not_logged
            [where cp = example_properties and row = "text_record ''L1'' ''''"
               and p = 0 and w = initial_world and w' = "checkAndFitBounds 0 initial_world"]
          a b c d
    by blast
  then show ?thesis
    using a b c d i by simp
qed

text \<open>
  Claim C6. When the geocoder answers a request with anything but the success branch
  (a status other than \<open>OK\<close>, or no result), the callback constructs no marker and no
  circle and leaves the refs alone; the counter of its pass goes up by one and its bounds
  stay as they are; the locals of every other pass and all the other outstanding requests
  are untouched; the failure is logged. The callback is a total function of the world: it
  has no exceptional outcome.
\<close>

theorem geocode_failure_is_counted:
  assumes "i < length (pending w)" and "\<not> geocode_ok r"
  shows "overlays (step (Geocoded i r) w) = overlays w
         \<and> markersRef (step (Geocoded i r) w) = markersRef w
         \<and> circlesRef (step (Geocoded i r) w) = circlesRef w
         \<and> markerCount (passes (step (Geocoded i r) w) (req_pass (pending w ! i))) =
             Suc (markerCount (passes w (req_pass (pending w ! i))))
         \<and> bounds (passes (step (Geocoded i r) w) (req_pass (pending w ! i))) =
             bounds (passes w (req_pass (pending w ! i)))
         \<and> (\<forall>q. q \<noteq> req_pass (pending w ! i) \<longrightarrow>
               passes (step (Geocoded i r) w) q = passes w q)
         \<and> pending (step (Geocoded i r) w) = take i (pending w) @ drop (Suc i) (pending w)
         \<and> console (step (Geocoded i r) w) =
             console w @ [GeocodingFailed (closure_address (req_closure (pending w ! i))) (status r)]"
  unfolding step_Geocoded [OF assms(1)] using assms(2)
  by (simp add: callback_overlays callback_markersRef callback_circlesRef callback_console
      callback_passes_same
      callback_passes_other constructed_def answered_def take_request_def)

theorem geocode_failure_is_counted_witness:
  "0 < length (pending example_pending) \<and> \<not> geocode_ok not_found
   \<and> overlays (step (Geocoded 0 not_found) example_pending) = overlays example_pending
   \<and> markerCount (passes (step (Geocoded 0 not_found) example_pending) 0) = 1
   \<and> length (pending (step (Geocoded 0 not_found) example_pending)) = 1"
proof -
  have l: "0 < length (pending example_pending)"
    by (simp add: example_pending_def run_defs)
  have f: "\<not> geocode_ok not_found"
    by (simp add: geocode_ok_def not_found_def)
  have p: "req_pass (pending example_pending ! 0) = 0"
    by (simp add: example_pending_def run_defs)
  have c: "markerCount (passes example_pending 0) = 0"
    by (simp add: example_pending_def run_defs)
  have n: "length (pending example_pending) = 2"
    by (simp add: example_pending_def run_defs)
  show ?thesis
    using geocode_failure_is_counted [OF l f] l f p c n
    by (simp del: step.simps)
qed

text \<open>
  Claim C7 as stated fails when a pass starts before the callbacks of the previous pass
  have fired: the marker of the earlier pass is constructed after the clearing and stays
  on the map beside the marker of the later pass.
\<close>

theorem resync_accumulates_counterexample:
  "on_map (exec one_pass_answered initial_world) =
     [Marker (1, 1) None ''#f74022'' (ListingPopup None [] None ''X'' Null Null None)]
   \<and> on_map (exec two_passes_answered initial_world) =
     [Marker (1, 1) None ''#f74022'' (ListingPopup None [] None ''X'' Null Null None),
      Marker (1, 1) None ''#f74022'' (ListingPopup None [] None ''X'' Null Null None)]
   \<and> map madeBy (filter onMap (overlays (exec two_passes_answered initial_world))) = [0, 1]
   \<and> on_map (exec two_passes_answered initial_world) \<noteq> on_map (exec one_pass_answered initial_world)"
  by (simp add: one_pass_answered_def two_passes_answered_def two_passes_def on_map_def run_defs)

text \<open>
  Claim C7, amended. In every world the page can reach, a pass detaches every overlay
  that is on the map and empties both refs. When no geocode request is outstanding at the
  start of a pass, and its own requests are all answered before the pass is run again
  with the same inputs, every request receiving the answer it received the first time,
  then, in whatever order the answers of either run arrive, the shapes on the map after
  the second run are those after the first, each as many times. When the answers of the
  second run also arrive in the order of the first, the shapes are even in the same
  order.
\<close>

theorem resync_is_idempotent_when_settled:
  assumes "ready e" and "w = exec evs initial_world"
  shows "on_map (effect e w) = [] \<and> markersRef (effect e w) = [] \<and> circlesRef (effect e w) = []
         \<and> (pending w = [] \<and> length rs = length (pending (effect e w))
              \<and> pending (exec (Effect e # schedule rs order1) w) = []
              \<and> pending (exec (Effect e # schedule rs order2)
                           (exec (Effect e # schedule rs order1) w)) = [] \<longrightarrow>
            mset (on_map (exec (Effect e # schedule rs order2)
                            (exec (Effect e # schedule rs order1) w))) =
              mset (on_map (exec (Effect e # schedule rs order1) w)))
         \<and> (pending w = [] \<and> list_all is_answer answers
              \<and> pending (exec (Effect e # answers) w) = [] \<longrightarrow>
            on_map (exec (Effect e # answers) (exec (Effect e # answers) w)) =
              on_map (exec (Effect e # answers) w))"
proof -
  have h: "held w"
    using assms(2) run_held by simp
  have clear: "on_map (effect e w) = []"
    using h assms(1) by (rule effect_on_map)
  have any_order: "mset (on_map (exec (Effect e # schedule rs order2)
                            (exec (Effect e # schedule rs order1) w))) =
              mset (on_map (exec (Effect e # schedule rs order1) w))"
    if q: "pending w = []" and len: "length rs = length (pending (effect e w))"
      and q1: "pending (exec (Effect e # schedule rs order1) w) = []"
      and q2: "pending (exec (Effect e # schedule rs order2)
                           (exec (Effect e # schedule rs order1) w)) = []"
  proof -
    let ?w1 = "exec (Effect e # schedule rs order1) w"
    have h1: "held ?w1"
      using h by (rule exec_held)
    have same: "map req_closure (pending (effect e ?w1)) = map req_closure (pending (effect e w))"
      using q1 q by (rule effect_queue)
    then have "length (pending (effect e ?w1)) = length (pending (effect e w))"
      by (metis length_map)
    then have len1: "length rs = length (pending (effect e ?w1))"
      using len by simp
    have "mset (on_map (exec (Effect e # schedule rs order2) ?w1)) =
            all_shapes (map req_closure (pending (effect e ?w1))) rs"
      using assms(1) h1 len1 q2 by (rule settled_pass_shapes)
    moreover have "mset (on_map ?w1) = all_shapes (map req_closure (pending (effect e w))) rs"
      using assms(1) h len q1 by (rule settled_pass_shapes)
    ultimately show ?thesis
      using same by simp
  qed
  have same_order: "on_map (exec (Effect e # answers) (exec (Effect e # answers) w)) =
              on_map (exec (Effect e # answers) w)"
    if q: "pending w = []" and a: "list_all is_answer answers"
      and q2: "pending (exec (Effect e # answers) w) = []"
  proof -
    let ?w2 = "exec (Effect e # answers) w"
    have a': "\<forall>ev \<in> set answers. is_answer ev"
      using a by (simp add: list_all_iff)
    have h2: "held ?w2"
      using h by (rule exec_held)
    have "on_map (exec (Effect e # answers) ?w2) =
            answer_shapes answers (map req_closure (pending (effect e ?w2)))"
      using assms(1) h2 a' by (rule pass_on_map)
    also have "map req_closure (pending (effect e ?w2)) = map req_closure (pending (effect e w))"
      using q2 q by (rule effect_queue)
    also have "answer_shapes answers (map req_closure (pending (effect e w))) = on_map ?w2"
      using pass_on_map [OF assms(1) h a'] by simp
    finally show ?thesis .
  qed
  show ?thesis
    using clear effect_refs [OF assms(1), of w] any_order same_order by blast
qed

theorem resync_is_idempotent_when_settled_witness:
  "ready (example_inputs [text_record ''R1'' ''A''] [text_record ''L1'' ''X''])
   \<and> pending (exec [] initial_world) = []
   \<and> length example_responses =
       length (pending (effect (example_inputs [text_record ''R1'' ''A''] [text_record ''L1'' ''X''])
                          (exec [] initial_world)))
   \<and> on_map (exec (Effect (example_inputs [text_record ''R1'' ''A''] [text_record ''L1'' ''X''])
                      # schedule example_responses [1, 0]) (exec [] initial_world)) =
       [Marker (2, 2) None ''#f74022'' (ListingPopup None [] None ''X'' Null Null None),
        Marker (1, 1) (Some (Str ''A'')) ''#1976d2'' (RequirementPopup ''R1'' (Str ''A'')),
        Circle (1, 1) 24140.16]
   \<and> on_map (exec (Effect (example_inputs [text_record ''R1'' ''A''] [text_record ''L1'' ''X''])
                      # schedule example_responses [0, 0])
               (exec (Effect (example_inputs [text_record ''R1'' ''A''] [text_record ''L1'' ''X''])
                        # schedule example_responses [1, 0]) (exec [] initial_world))) =
       [Marker (1, 1) (Some (Str ''A'')) ''#1976d2'' (RequirementPopup ''R1'' (Str ''A'')),
        Circle (1, 1) 24140.16,
        Marker (2, 2) None ''#f74022'' (ListingPopup None [] None ''X'' Null Null None)]
   \<and> mset (on_map (exec (Effect (example_inputs [text_record ''R1'' ''A''] [text_record ''L1'' ''X''])
                      # schedule example_responses [0, 0])
               (exec (Effect (example_inputs [text_record ''R1'' ''A''] [text_record ''L1'' ''X''])
                        # schedule example_responses [1, 0]) (exec [] initial_world)))) =
     mset (on_map (exec (Effect (example_inputs [text_record ''R1'' ''A''] [text_record ''L1'' ''X''])
                      # schedule example_responses [1, 0]) (exec [] initial_world)))"
proof -
  let ?e = "example_inputs [text_record ''R1'' ''A''] [text_record ''L1'' ''X'']"
  let ?w = "exec [] initial_world"
  let ?w1 = "exec (Effect ?e # schedule example_responses [1, 0]) ?w"
  let ?w2 = "exec (Effect ?e # schedule example_responses [0, 0]) ?w1"
  have r: "ready ?e"
    by (simp add: ready_def example_inputs_def)
  have q: "pending ?w = []"
    by (simp add: initial_world_def)
  have len: "length example_responses = length (pending (effect ?e ?w))"
    by (simp add: example_responses_def run_defs)
  have q1: "pending ?w1 = []"
    by (simp add: example_responses_def run_defs)
  have q2: "pending ?w2 = []"
    by (simp add: example_responses_def run_defs)
  have v1: "on_map ?w1 =
       [Marker (2, 2) None ''#f74022'' (ListingPopup None [] None ''X'' Null Null None),
        Marker (1, 1) (Some (Str ''A'')) ''#1976d2'' (RequirementPopup ''R1'' (Str ''A'')),
        Circle (1, 1) 24140.16]"
    by (simp add: example_responses_def on_map_def run_defs)
  have v2: "on_map ?w2 =
       [Marker (1, 1) (Some (Str ''A'')) ''#1976d2'' (RequirementPopup ''R1'' (Str ''A'')),
        Circle (1, 1) 24140.16,
        Marker (2, 2) None ''#f74022'' (ListingPopup None [] None ''X'' Null Null None)]"
    by (simp add: example_responses_def on_map_def setMap_null_def run_defs)
  have "mset (on_map ?w2) = mset (on_map ?w1)"
    using resync_is_idempotent_when_settled
            [OF r refl, where evs = "[]" and rs = example_responses and ?order1.0 = "[1, 0]"
               and ?order2.0 = "[0, 0]"]
          q len q1 q2
    by blast
  then show ?thesis
    using r q len v1 v2 by (simp only: simp_thms)
qed

text \<open>
  Claim C8. The locals of a pass are its own. When a pass starts in a world reached by any
  run, no outstanding callback refers to its locals, its bounds are empty and its counter
  accounts for its own records only, and the locals and the \<open>fitBounds\<close> calls of every
  other pass are as they were. When a callback fires, it belongs to a pass that has
  started; it adds one to the counter of that pass and extends the bounds of that pass,
  and the locals and the \<open>fitBounds\<close> calls of every other pass are as they were.
\<close>

theorem callbacks_stay_in_their_pass:
  assumes "w = exec evs initial_world"
  shows "(ready e \<longrightarrow>
            (\<forall>rq \<in> set (pending w). req_pass rq \<noteq> nextPass w)
            \<and> bounds (passes (effect e w) (nextPass w)) = []
            \<and> markerCount (passes (effect e w) (nextPass w)) + outstanding (nextPass w) (effect e w) =
                totalRecords (passes (effect e w) (nextPass w))
            \<and> (\<forall>q. q \<noteq> nextPass w \<longrightarrow>
                  passes (effect e w) q = passes w q \<and> fits q (effect e w) = fits q w))
         \<and> (i < length (pending w) \<longrightarrow>
            req_pass (pending w ! i) < nextPass w
            \<and> markerCount (passes (step (Geocoded i r) w) (req_pass (pending w ! i))) =
                Suc (markerCount (passes w (req_pass (pending w ! i))))
            \<and> bounds (passes (step (Geocoded i r) w) (req_pass (pending w ! i))) =
                bounds (passes w (req_pass (pending w ! i))) @ answered r
            \<and> (\<forall>q. q \<noteq> req_pass (pending w ! i) \<longrightarrow>
                  passes (step (Geocoded i r) w) q = passes w q
                  \<and> fits q (step (Geocoded i r) w) = fits q w))"
proof -
  have iw: "inv w"
    using assms run_inv by simp
  have A: "ready e \<Longrightarrow> (\<forall>rq \<in> set (pending w). req_pass rq \<noteq> nextPass w)"
    using iw by (auto simp: inv_def)
  have B: "ready e \<Longrightarrow> markerCount (passes (effect e w) (nextPass w)) + outstanding (nextPass w) (effect e w) =
                totalRecords (passes (effect e w) (nextPass w))"
    using effect_syncing [OF iw, of e] by (simp add: syncing_def pass_ok_def)
  have C: "i < length (pending w) \<Longrightarrow> req_pass (pending w ! i) < nextPass w"
    using iw by (simp add: inv_def)
  have D: "i < length (pending w) \<Longrightarrow>
             step (Geocoded i r) w = callback (pending w ! i) r (take_request i w)"
    by (rule step_Geocoded)
  show ?thesis
    using A B C
    by (simp del: step.simps
        add: D effect_bounds_new effect_passes_other effect_fits_other
          callback_passes_same callback_passes_other callback_fits_other)
qed

theorem callbacks_stay_in_their_pass_witness:
  "ready (example_inputs [] [])
   \<and> 0 < length (pending (exec two_passes initial_world))
   \<and> req_pass (pending (exec two_passes initial_world) ! 0) = 0
   \<and> passes (step (Geocoded 0 (found (1, 1))) (exec two_passes initial_world)) 1 =
       passes (exec two_passes initial_world) 1
   \<and> fits 1 (step (Geocoded 0 (found (1, 1))) (exec two_passes initial_world)) =
       fits 1 (exec two_passes initial_world)"
proof -
  have r: "ready (example_inputs [] [])"
    by (simp add: ready_def example_inputs_def)
  have l: "0 < length (pending (exec two_passes initial_world))"
    by (simp add: two_passes_def run_defs)
  have p: "req_pass (pending (exec two_passes initial_world) ! 0) = 0"
    by (simp add: two_passes_def run_defs)
  show ?thesis
    using callbacks_stay_in_their_pass
            [OF refl, where evs = two_passes and e = "example_inputs [] []" and i = 0
               and r = "found (1, 1)"]
          r l p
    by (simp del: step.simps)
qed



text \<open>
  Claim C10. A pass over two empty collections hands nothing to the geocoder and
  constructs no overlay, and however the page runs on afterwards, its counter stays at
  zero, its callbacks construct nothing (it has none) and \<open>fitBounds\<close> is never called
  for it.
\<close>

theorem empty_pass_never_fits:
  assumes "ready e" and "records_of (requirementRecords e) = []"
    and "records_of (listingRecords e) = []" and "w = exec evs initial_world"
  shows "pending (effect e w) = pending w
         \<and> map label (overlays (effect e w)) = map label (overlays w)
         \<and> markerCount (passes (exec later (effect e w)) (nextPass w)) = 0
         \<and> made (nextPass w) (exec later (effect e w)) = []
         \<and> fits (nextPass w) (exec later (effect e w)) = []"
proof -
  let ?p = "nextPass w"
  let ?w' = "effect e w"
  have iw: "inv w"
    using assms(4) run_inv by simp
  have eq: "?w' = begin_pass e (clear_overlays (w\<lparr>mapInstance := True\<rparr>))"
    using assms(1-3) by (rule effect_empty)
  have un: "unstarted ?p w"
    using iw by (simp add: inv_def)
  have out: "outstanding ?p ?w' = 0"
    using iw by (simp add: eq inv_def outstanding_unstarted)
  have "inv ?w'"
    using iw by (rule effect_inv)
  moreover have "?p < nextPass ?w'"
    by (simp add: eq)
  ultimately have keep: "passes (exec later ?w') ?p = passes ?w' ?p
      \<and> fits ?p (exec later ?w') = fits ?p ?w' \<and> made ?p (exec later ?w') = made ?p ?w'"
    using out exec_settled by blast
  have "markerCount (passes ?w' ?p) = 0"
    by (simp add: eq begin_pass_passes)
  moreover have "fits ?p ?w' = [] \<and> made ?p ?w' = []"
    using un by (simp add: eq unstarted_def)
  moreover have "pending ?w' = pending w"
    by (simp add: eq)
  ultimately show ?thesis
    using keep by (simp add: effect_label)
qed

theorem empty_pass_never_fits_witness:
  "ready (example_inputs [] [])
   \<and> fits (nextPass (exec example_run initial_world))
        (exec [Effect (example_inputs [text_record ''R1'' ''A''] []), Geocoded 0 (found (3, 3))]
           (effect (example_inputs [] []) (exec example_run initial_world))) = []"
proof -
  have r: "ready (example_inputs [] [])"
    by (simp add: ready_def example_inputs_def)
  have a: "records_of (requirementRecords (example_inputs [] [])) = []"
    by (simp add: records_of_def example_inputs_def)
  have b: "records_of (listingRecords (example_inputs [] [])) = []"
    by (simp add: records_of_def example_inputs_def)
  show ?thesis
    using empty_pass_never_fits [OF r a b refl, of example_run] r by blast
qed

end
